theory Spec2Isabelle
  imports Main "HOL-Library.Sublist"
begin

section \<open>Strings\<close>

text \<open>
  A JavaScript string is a sequence of code units. The model uses \<^typ>\<open>string\<close>: a
  character stands for the code unit with the same number, so the model covers the texts
  whose code units lie in U+0000 .. U+00FF. The character classes below are the ones of
  ECMAScript restricted to that range.
\<close>

definition isDigit :: "char \<Rightarrow> bool" where
  \<comment> \<open>the class \<open>\d\<close>, that is \<open>[0-9]\<close>\<close>
  "isDigit c = (48 \<le> (of_char c :: nat) \<and> (of_char c :: nat) \<le> 57)"

definition isUpper :: "char \<Rightarrow> bool" where
  \<comment> \<open>the class \<open>[A-Z]\<close>\<close>
  "isUpper c = (65 \<le> (of_char c :: nat) \<and> (of_char c :: nat) \<le> 90)"

definition isLower :: "char \<Rightarrow> bool" where
  \<comment> \<open>the class \<open>[a-z]\<close>\<close>
  "isLower c = (97 \<le> (of_char c :: nat) \<and> (of_char c :: nat) \<le> 122)"

definition isSpace :: "char \<Rightarrow> bool" where
  \<comment> \<open>the class \<open>\s\<close> (WhiteSpace and LineTerminator): TAB, LF, VT, FF, CR, SP, NBSP\<close>
  "isSpace c = ((of_char c :: nat) \<in> {9, 10, 11, 12, 13, 32, 160})"

definition isWordChar :: "char \<Rightarrow> bool" where
  \<comment> \<open>the class \<open>\w\<close>, that is \<open>[A-Za-z0-9_]\<close>\<close>
  "isWordChar c = (isUpper c \<or> isLower c \<or> isDigit c \<or> c = CHR ''_'')"

definition isSep :: "char \<Rightarrow> bool" where
  \<comment> \<open>the class \<open>[\s.-]\<close>\<close>
  "isSep c = (isSpace c \<or> c = CHR ''.'' \<or> c = CHR ''-'')"

definition toLowerChar :: "char \<Rightarrow> char" where
  \<comment> \<open>lower case of one code unit below U+0100: A-Z, and U+00C0 .. U+00DE but U+00D7\<close>
  "toLowerChar c =
     (let n = (of_char c :: nat) in
      if (65 \<le> n \<and> n \<le> 90) \<or> (192 \<le> n \<and> n \<le> 222 \<and> n \<noteq> 215)
      then char_of (n + 32) else c)"

definition toLowerCase :: "string \<Rightarrow> string" where
  "toLowerCase s = map toLowerChar s"

definition trim :: "string \<Rightarrow> string" where
  \<comment> \<open>\<open>String.prototype.trim\<close>: white space removed at both ends\<close>
  "trim s = rev (dropWhile isSpace (rev (dropWhile isSpace s)))"

fun includes_str :: "string \<Rightarrow> string \<Rightarrow> bool" where
  \<comment> \<open>\<open>s.includes(w)\<close>: \<open>w\<close> occurs in \<open>s\<close>\<close>
  "includes_str [] w = (w = [])"
| "includes_str (c # cs) w = (prefix w (c # cs) \<or> includes_str cs w)"

fun replace_first :: "string \<Rightarrow> string \<Rightarrow> string" where
  \<comment> \<open>\<open>s.replace(w, '')\<close> with a string pattern: the first occurrence of \<open>w\<close> is
      removed; \<open>s\<close> is returned as it is when \<open>w\<close> does not occur\<close>
  "replace_first [] w = []"
| "replace_first (c # cs) w =
     (if prefix w (c # cs) then drop (length w) (c # cs) else c # replace_first cs w)"

definition digitVal :: "char \<Rightarrow> int" where
  "digitVal c = int (of_char c) - 48"

definition parseInt :: "string \<Rightarrow> int" where
  \<comment> \<open>\<open>parseInt\<close> in base ten, on the leading digits; the program calls it on
      non-empty strings of digits only\<close>
  "parseInt s = foldl (\<lambda>n c. 10 * n + digitVal c) 0 (takeWhile isDigit s)"

fun indexOf :: "string list \<Rightarrow> string \<Rightarrow> int" where
  \<comment> \<open>\<open>Array.prototype.indexOf\<close>: the first index, or -1\<close>
  "indexOf [] w = -1"
| "indexOf (x # xs) w =
     (if x = w then 0 else (let i = indexOf xs w in if i < 0 then -1 else i + 1))"

definition truthy :: "string option \<Rightarrow> bool" where
  \<comment> \<open>truthiness of a value of type \<open>string | null | undefined\<close>\<close>
  "truthy v = (case v of None \<Rightarrow> False | Some s \<Rightarrow> s \<noteq> [])"

section \<open>Regular expressions\<close>

text \<open>
  The regular expressions of the program, as syntax trees, and a backtracking matcher
  that lists the ways a pattern can match at a position in the order in which the
  ECMAScript matcher tries them (greedy quantifiers take the longest repetition first,
  the left alternative comes before the right one). The first element of the list is
  the match that \<open>String.prototype.match\<close> reports.
\<close>

datatype regex =
    Cls "char \<Rightarrow> bool"   \<comment> \<open>one character of a class\<close>
  | Str string             \<comment> \<open>a literal string\<close>
  | Seq regex regex
  | Alt regex regex
  | Star regex             \<comment> \<open>greedy \<open>*\<close>\<close>
  | Group nat regex        \<comment> \<open>capturing group with its number\<close>
  | Bol                    \<comment> \<open>\<open>^\<close> (no multiline flag)\<close>
  | WordB                  \<comment> \<open>\<open>\b\<close>\<close>
  | Eps

definition Opt :: "regex \<Rightarrow> regex" where
  \<comment> \<open>greedy \<open>?\<close>\<close>
  "Opt r = Alt r Eps"

definition Plus :: "regex \<Rightarrow> regex" where
  \<comment> \<open>greedy \<open>+\<close>\<close>
  "Plus r = Seq r (Star r)"

fun Times :: "nat \<Rightarrow> regex \<Rightarrow> regex \<Rightarrow> regex" where
  \<comment> \<open>\<open>Times n r k\<close> is \<open>r{n}\<close> followed by \<open>k\<close>\<close>
  "Times 0 r k = k"
| "Times (Suc n) r k = Seq r (Times n r k)"

fun UpTo :: "nat \<Rightarrow> regex \<Rightarrow> regex" where
  \<comment> \<open>greedy \<open>r{0,n}\<close>\<close>
  "UpTo 0 r = Eps"
| "UpTo (Suc n) r = Opt (Seq r (UpTo n r))"

definition Rep :: "nat \<Rightarrow> nat \<Rightarrow> regex \<Rightarrow> regex" where
  \<comment> \<open>greedy \<open>r{lo,hi}\<close>\<close>
  "Rep lo hi r = Times lo r (UpTo (hi - lo) r)"

record mstate =
  endIndex :: nat                  \<comment> \<open>the position reached in the input\<close>
  caps :: "(nat \<times> string) list"    \<comment> \<open>the captures made so far, the latest first\<close>

definition at :: "mstate \<Rightarrow> nat \<Rightarrow> mstate" where
  \<comment> \<open>the state moved to a position\<close>
  "at s j = s\<lparr>endIndex := j\<rparr>"

definition substr :: "string \<Rightarrow> nat \<Rightarrow> nat \<Rightarrow> string" where
  \<comment> \<open>the input from position \<open>i\<close> up to position \<open>j\<close>\<close>
  "substr inp i j = take (j - i) (drop i inp)"

definition atWordBoundary :: "string \<Rightarrow> nat \<Rightarrow> bool" where
  "atWordBoundary inp e =
     ((0 < e \<and> e \<le> length inp \<and> isWordChar (inp ! (e - 1))) \<noteq>
      (e < length inp \<and> isWordChar (inp ! e)))"

function ms :: "regex \<Rightarrow> string \<Rightarrow> mstate \<Rightarrow> mstate list" where
  "ms (Cls p) inp s =
     (if endIndex s < length inp \<and> p (inp ! endIndex s)
      then [s\<lparr>endIndex := endIndex s + 1\<rparr>] else [])"
| "ms (Str w) inp s =
     (if prefix w (drop (endIndex s) inp)
      then [s\<lparr>endIndex := endIndex s + length w\<rparr>] else [])"
| "ms (Seq a b) inp s = concat (map (ms b inp) (ms a inp s))"
| "ms (Alt a b) inp s = ms a inp s @ ms b inp s"
| "ms (Star a) inp s =
     concat (map (\<lambda>s'. if endIndex s < endIndex s' \<and> endIndex s' \<le> length inp
                      then ms (Star a) inp s' else [])
                 (ms a inp s)) @ [s]"
| "ms (Group n a) inp s =
     map (\<lambda>s'. s'\<lparr>caps := (n, substr inp (endIndex s) (endIndex s')) # caps s'\<rparr>)
         (ms a inp s)"
| "ms Bol inp s = (if endIndex s = 0 then [s] else [])"
| "ms WordB inp s = (if atWordBoundary inp (endIndex s) then [s] else [])"
| "ms Eps inp s = [s]"
  by pat_completeness auto
termination
  by (relation "measures [\<lambda>(r, inp, s). size r, \<lambda>(r, inp, s). length inp - endIndex s]") auto

text \<open>
  A state is ECMAScript's MatchState: the end index and the captures. In \<open>Star\<close> an
  iteration that consumes nothing is dropped, as RepeatMatcher does (a match never moves
  backwards and never leaves the input, so the test is the one for a different end
  index). No pattern of the program has a group under a star, so the reset of the
  captures at each iteration has nothing to do.
\<close>

record rmatch =
  whole :: string                  \<comment> \<open>\<open>match[0]\<close>\<close>
  groups :: "(nat \<times> string) list"

definition group :: "rmatch \<Rightarrow> nat \<Rightarrow> string option" where
  \<comment> \<open>\<open>match[n]\<close>; \<open>None\<close> is \<open>undefined\<close>\<close>
  "group m n = map_of (groups m) n"

fun searchFrom :: "regex \<Rightarrow> string \<Rightarrow> nat list \<Rightarrow> rmatch option" where
  \<comment> \<open>the first match at one of the start positions, tried in order\<close>
  "searchFrom r inp [] = None"
| "searchFrom r inp (i # is) =
     (case ms r inp \<lparr>endIndex = i, caps = []\<rparr> of
        [] \<Rightarrow> searchFrom r inp is
      | s' # _ \<Rightarrow> Some \<lparr>whole = substr inp i (endIndex s'), groups = caps s'\<rparr>)"

definition match :: "string \<Rightarrow> regex \<Rightarrow> rmatch option" where
  \<comment> \<open>\<open>text.match(re)\<close> for a regular expression without the \<open>g\<close> flag\<close>
  "match text r = searchFrom r text [0..<Suc (length text)]"

section \<open>Name and phone\<close>

definition capWord :: regex where
  \<comment> \<open>\<open>[A-Z][a-z]+\<close>\<close>
  "capWord = Seq (Cls isUpper) (Plus (Cls isLower))"

definition nameRe :: regex where
  \<comment> \<open>\<open>/^([A-Z][a-z]+(?:\s+[A-Z][a-z]+)*)/\<close>\<close>
  "nameRe = Seq Bol (Group 1 (Seq capWord (Star (Seq (Plus (Cls isSpace)) capWord))))"

definition extractName :: "string \<Rightarrow> string option" where
  "extractName text = (case match text nameRe of None \<Rightarrow> None | Some m \<Rightarrow> group m 1)"

definition phoneRe1 :: regex where
  \<comment> \<open>\<open>/\(?\d{3}\)?[\s.-]?\d{3}[\s.-]?\d{4}/\<close>\<close>
  "phoneRe1 =
     Seq (Opt (Str ''(''))
      (Times 3 (Cls isDigit)
        (Seq (Opt (Str '')''))
          (Seq (Opt (Cls isSep))
            (Times 3 (Cls isDigit)
              (Seq (Opt (Cls isSep))
                (Rep 4 4 (Cls isDigit)))))))"

definition phoneRe2 :: regex where
  \<comment> \<open>\<open>/\d{10}/\<close>\<close>
  "phoneRe2 = Rep 10 10 (Cls isDigit)"

record phone_match =
  raw :: string
  formatted :: string

definition formatDigits :: "string \<Rightarrow> string" where
  \<comment> \<open>\<open>`${digits.slice(0, 3)}-${digits.slice(3, 6)}-${digits.slice(6)}`\<close>\<close>
  "formatDigits digits = take 3 digits @ ''-'' @ take 3 (drop 3 digits) @ ''-'' @ drop 6 digits"

fun tryPatterns :: "regex list \<Rightarrow> string \<Rightarrow> phone_match option" where
  \<comment> \<open>the loop of \<open>extractPhone\<close> over its patterns\<close>
  "tryPatterns [] text = None"
| "tryPatterns (pattern # ps) text =
     (case match text pattern of
        None \<Rightarrow> tryPatterns ps text
      | Some m \<Rightarrow>
          (let digits = filter isDigit (whole m) in
           if length digits = 10
           then Some \<lparr>raw = whole m, formatted = formatDigits digits\<rparr>
           else tryPatterns ps text))"

definition extractPhone :: "string \<Rightarrow> phone_match option" where
  "extractPhone text = tryPatterns [phoneRe1, phoneRe2] text"

section \<open>Dates\<close>

text \<open>
  A \<open>Date\<close> is its time value: the milliseconds since the epoch, in UTC. The
  functions are those of ECMAScript's Date objects. The local time is the time value
  plus the offset \<open>tza\<close> of the host's time zone, taken constant (no change of the
  offset between the instants of one call); every time value of the program stays
  within the range that \<open>TimeClip\<close> accepts.
\<close>

definition msPerDay :: int where
  "msPerDay = 86400000"

definition Day :: "int \<Rightarrow> int" where
  "Day t = t div msPerDay"

definition TimeWithinDay :: "int \<Rightarrow> int" where
  "TimeWithinDay t = t mod msPerDay"

definition DayFromYear :: "int \<Rightarrow> int" where
  "DayFromYear y =
     365 * (y - 1970) + (y - 1969) div 4 - (y - 1901) div 100 + (y - 1601) div 400"

definition leap :: "int \<Rightarrow> int" where
  \<comment> \<open>\<open>InLeapYear\<close>, of a year\<close>
  "leap y = (if y mod 4 = 0 \<and> (y mod 100 \<noteq> 0 \<or> y mod 400 = 0) then 1 else 0)"

definition YearFromDay :: "int \<Rightarrow> int" where
  \<comment> \<open>the largest year that starts on or before the day: an estimate, corrected by one\<close>
  "YearFromDay d =
     (let e = 1970 + (400 * d) div 146097 in
      if DayFromYear (e + 1) \<le> d then e + 1
      else if DayFromYear e \<le> d then e
      else e - 1)"

definition YearFromTime :: "int \<Rightarrow> int" where
  "YearFromTime t = YearFromDay (Day t)"

definition DayWithinYear :: "int \<Rightarrow> int" where
  "DayWithinYear t = Day t - DayFromYear (YearFromTime t)"

definition monthStart :: "int \<Rightarrow> int \<Rightarrow> int" where
  \<comment> \<open>the day within the year on which month \<open>m\<close> (0 .. 11) starts\<close>
  "monthStart m l =
     (if m = 0 then 0 else if m = 1 then 31 else if m = 2 then 59 + l
      else if m = 3 then 90 + l else if m = 4 then 120 + l else if m = 5 then 151 + l
      else if m = 6 then 181 + l else if m = 7 then 212 + l else if m = 8 then 243 + l
      else if m = 9 then 273 + l else if m = 10 then 304 + l else 334 + l)"

definition MonthFromTime :: "int \<Rightarrow> int" where
  "MonthFromTime t =
     (let d = DayWithinYear t; l = leap (YearFromTime t) in
      if d < 31 then 0 else if d < 59 + l then 1 else if d < 90 + l then 2
      else if d < 120 + l then 3 else if d < 151 + l then 4 else if d < 181 + l then 5
      else if d < 212 + l then 6 else if d < 243 + l then 7 else if d < 273 + l then 8
      else if d < 304 + l then 9 else if d < 334 + l then 10 else 11)"

definition DateFromTime :: "int \<Rightarrow> int" where
  "DateFromTime t =
     DayWithinYear t - monthStart (MonthFromTime t) (leap (YearFromTime t)) + 1"

definition WeekDay :: "int \<Rightarrow> int" where
  "WeekDay t = (Day t + 4) mod 7"

definition MakeTime :: "int \<Rightarrow> int \<Rightarrow> int \<Rightarrow> int \<Rightarrow> int" where
  "MakeTime h m s milli = h * 3600000 + m * 60000 + s * 1000 + milli"

definition MakeDay :: "int \<Rightarrow> int \<Rightarrow> int \<Rightarrow> int" where
  "MakeDay year month date =
     (let ym = year + month div 12; mn = month mod 12 in
      DayFromYear ym + monthStart mn (leap ym) + date - 1)"

definition MakeDate :: "int \<Rightarrow> int \<Rightarrow> int" where
  "MakeDate day time = day * msPerDay + time"

definition getFullYear :: "int \<Rightarrow> int \<Rightarrow> int" where
  "getFullYear tza t = YearFromTime (t + tza)"

definition getDate :: "int \<Rightarrow> int \<Rightarrow> int" where
  "getDate tza t = DateFromTime (t + tza)"

definition getDay :: "int \<Rightarrow> int \<Rightarrow> int" where
  "getDay tza t = WeekDay (t + tza)"

definition setDate :: "int \<Rightarrow> int \<Rightarrow> int \<Rightarrow> int" where
  "setDate tza t dt =
     (let lt = t + tza in
      MakeDate (MakeDay (YearFromTime lt) (MonthFromTime lt) dt) (TimeWithinDay lt) - tza)"

definition setHours :: "int \<Rightarrow> int \<Rightarrow> int \<Rightarrow> int \<Rightarrow> int \<Rightarrow> int \<Rightarrow> int" where
  "setHours tza t h m s milli =
     MakeDate (Day (t + tza)) (MakeTime h m s milli) - tza"

definition newDate :: "int \<Rightarrow> int \<Rightarrow> int \<Rightarrow> int \<Rightarrow> int" where
  \<comment> \<open>\<open>new Date(year, month, day)\<close>: local midnight; a year 0 .. 99 means 1900 + year\<close>
  "newDate tza year month day =
     (let yr = (if 0 \<le> year \<and> year \<le> 99 then 1900 + year else year) in
      MakeDate (MakeDay yr month day) (MakeTime 0 0 0 0) - tza)"

fun padNat :: "nat \<Rightarrow> nat \<Rightarrow> string" where
  \<comment> \<open>the last \<open>k\<close> decimal digits, with leading zeros\<close>
  "padNat 0 n = []"
| "padNat (Suc k) n = padNat k (n div 10) @ [char_of (48 + n mod 10)]"

definition isoYear :: "int \<Rightarrow> string" where
  "isoYear y =
     (if 0 \<le> y \<and> y \<le> 9999 then padNat 4 (nat y)
      else (if y < 0 then ''-'' else ''+'') @ padNat 6 (nat \<bar>y\<bar>))"

definition toISOString :: "int \<Rightarrow> string" where
  "toISOString t =
     (let ms_in_day = TimeWithinDay t in
      isoYear (YearFromTime t) @ ''-'' @ padNat 2 (nat (MonthFromTime t + 1)) @ ''-'' @
      padNat 2 (nat (DateFromTime t)) @ ''T'' @
      padNat 2 (nat (ms_in_day div 3600000)) @ '':'' @
      padNat 2 (nat (ms_in_day div 60000 mod 60)) @ '':'' @
      padNat 2 (nat (ms_in_day div 1000 mod 60)) @ ''.'' @
      padNat 3 (nat (ms_in_day mod 1000)) @ ''Z'')"

record clock =
  tza :: int          \<comment> \<open>offset of the local time zone, in milliseconds\<close>
  now :: int          \<comment> \<open>\<open>const now = new Date()\<close> in \<open>extractDateTime\<close>\<close>
  now_target :: int   \<comment> \<open>\<open>let targetDate = new Date()\<close> in \<open>extractDateTime\<close>\<close>
  now_default :: int  \<comment> \<open>\<open>new Date()\<close> where the orchestrator builds its record\<close>

section \<open>Date and time\<close>

definition digit12 :: regex where
  \<comment> \<open>\<open>\d{1,2}\<close>\<close>
  "digit12 = Rep 1 2 (Cls isDigit)"

definition weekdayNames :: regex where
  \<comment> \<open>\<open>monday|tuesday|wednesday|thursday|friday|saturday|sunday\<close>\<close>
  "weekdayNames =
     Alt (Str ''monday'') (Alt (Str ''tuesday'') (Alt (Str ''wednesday'')
       (Alt (Str ''thursday'') (Alt (Str ''friday'') (Alt (Str ''saturday'')
         (Str ''sunday''))))))"

definition weekdayRe :: regex where
  \<comment> \<open>\<open>/\b(next\s+)?(monday|tuesday|wednesday|thursday|friday|saturday|sunday)\b/\<close>\<close>
  "weekdayRe =
     Seq WordB
      (Seq (Opt (Group 1 (Seq (Str ''next'') (Plus (Cls isSpace)))))
        (Seq (Group 2 weekdayNames) WordB))"

definition specificDateRe :: regex where
  \<comment> \<open>\<open>/\b(\d{1,2})\/(\d{1,2})(?:\/(\d{2,4}))?\b/\<close>\<close>
  "specificDateRe =
     Seq WordB
      (Seq (Group 1 digit12)
        (Seq (Str ''/'')
          (Seq (Group 2 digit12)
            (Seq (Opt (Seq (Str ''/'') (Group 3 (Rep 2 4 (Cls isDigit)))))
              WordB))))"

definition anyCase :: "char \<Rightarrow> regex" where
  \<comment> \<open>a lower-case letter under the \<open>i\<close> flag: the letter in either case\<close>
  "anyCase c = Cls (\<lambda>x. toLowerChar x = c)"

definition time12Re :: regex where
  \<comment> \<open>\<open>/\b(\d{1,2})(?::(\d{2}))?\s*(am|pm)\b/i\<close>\<close>
  "time12Re =
     Seq WordB
      (Seq (Group 1 digit12)
        (Seq (Opt (Seq (Str '':'') (Group 2 (Rep 2 2 (Cls isDigit)))))
          (Seq (Star (Cls isSpace))
            (Seq (Group 3
                   (Alt (Seq (anyCase CHR ''a'') (anyCase CHR ''m''))
                        (Seq (anyCase CHR ''p'') (anyCase CHR ''m''))))
              WordB))))"

definition time24Re :: regex where
  \<comment> \<open>\<open>/\b(\d{1,2}):(\d{2})\b/\<close>\<close>
  "time24Re =
     Seq WordB (Seq (Group 1 digit12) (Seq (Str '':'') (Seq (Group 2 (Rep 2 2 (Cls isDigit))) WordB)))"

definition weekdays :: "string list" where
  "weekdays = [''sunday'', ''monday'', ''tuesday'', ''wednesday'', ''thursday'', ''friday'', ''saturday'']"

definition grp :: "rmatch \<Rightarrow> nat \<Rightarrow> string" where
  \<comment> \<open>\<open>match[n]\<close> of a group that takes part in every match of its pattern\<close>
  "grp m n = (case group m n of None \<Rightarrow> [] | Some w \<Rightarrow> w)"

record dtstate =
  targetDate :: int
  targetTime :: "(int \<times> int) option"   \<comment> \<open>hours and minutes\<close>
  matchedText :: string

definition daysToAdd :: "int \<Rightarrow> int \<Rightarrow> bool \<Rightarrow> int" where
  \<comment> \<open>\<open>let daysToAdd = targetWeekday - currentWeekday;
      if (daysToAdd <= 0 || isNext) daysToAdd += 7\<close>\<close>
  "daysToAdd targetWeekday currentWeekday isNext =
     (let d = targetWeekday - currentWeekday in
      if d \<le> 0 \<or> isNext then d + 7 else d)"

definition stageTomorrow :: "clock \<Rightarrow> string \<Rightarrow> dtstate \<Rightarrow> dtstate" where
  "stageTomorrow clk lowerText st =
     (if includes_str lowerText ''tomorrow''
      then st\<lparr>targetDate := setDate (tza clk) (now clk) (getDate (tza clk) (now clk) + 1),
              matchedText := ''tomorrow''\<rparr>
      else st)"

definition stageWeekday :: "clock \<Rightarrow> string \<Rightarrow> dtstate \<Rightarrow> dtstate" where
  "stageWeekday clk lowerText st =
     (case match lowerText weekdayRe of
        None \<Rightarrow> st
      | Some weekdayMatch \<Rightarrow>
          (let targetWeekday =
                 (case group weekdayMatch 2 of None \<Rightarrow> -1 | Some w \<Rightarrow> indexOf weekdays w);
               isNext = (group weekdayMatch 1 \<noteq> None);
               currentWeekday = getDay (tza clk) (now clk);
               n = daysToAdd targetWeekday currentWeekday isNext
           in st\<lparr>targetDate := setDate (tza clk) (now clk) (getDate (tza clk) (now clk) + n),
                   matchedText := whole weekdayMatch\<rparr>))"

definition stageSpecificDate :: "clock \<Rightarrow> string \<Rightarrow> dtstate \<Rightarrow> dtstate" where
  "stageSpecificDate clk text st =
     (case match text specificDateRe of
        None \<Rightarrow> st
      | Some specificDateMatch \<Rightarrow>
          (let month = parseInt (grp specificDateMatch 1) - 1;
               day = parseInt (grp specificDateMatch 2);
               year =
                 (if truthy (group specificDateMatch 3)
                  then (if length (grp specificDateMatch 3) = 2
                        then 2000 + parseInt (grp specificDateMatch 3)
                        else parseInt (grp specificDateMatch 3))
                  else getFullYear (tza clk) (now clk))
           in st\<lparr>targetDate := newDate (tza clk) year month day,
                   matchedText := whole specificDateMatch\<rparr>))"

definition hours12 :: "string \<Rightarrow> int \<Rightarrow> int" where
  \<comment> \<open>\<open>if (meridiem === 'pm' && hours !== 12) hours += 12;
      if (meridiem === 'am' && hours === 12) hours = 0\<close>\<close>
  "hours12 meridiem hours =
     (let h = (if meridiem = ''pm'' \<and> hours \<noteq> 12 then hours + 12 else hours) in
      if meridiem = ''am'' \<and> h = 12 then 0 else h)"

definition stageTime12 :: "string \<Rightarrow> dtstate \<Rightarrow> dtstate" where
  "stageTime12 text st =
     (case match text time12Re of
        None \<Rightarrow> st
      | Some time12HourMatch \<Rightarrow>
          (let hours = parseInt (grp time12HourMatch 1);
               minutes = (if truthy (group time12HourMatch 2)
                          then parseInt (grp time12HourMatch 2) else 0);
               meridiem = toLowerCase (grp time12HourMatch 3)
           in st\<lparr>targetTime := Some (hours12 meridiem hours, minutes),
                   matchedText := matchedText st @ '' '' @ whole time12HourMatch\<rparr>))"

definition stageTime24 :: "string \<Rightarrow> dtstate \<Rightarrow> dtstate" where
  "stageTime24 text st =
     (case match text time24Re of
        None \<Rightarrow> st
      | Some time24HourMatch \<Rightarrow>
          (if match text time12Re \<noteq> None then st
           else
             (let hours = parseInt (grp time24HourMatch 1);
                  minutes = parseInt (grp time24HourMatch 2)
              in if 0 \<le> hours \<and> hours < 24 \<and> 0 \<le> minutes \<and> minutes < 60
                 then st\<lparr>targetTime := Some (hours, minutes),
                         matchedText := matchedText st @ '' '' @ whole time24HourMatch\<rparr>
                 else st)))"

definition stages :: "clock \<Rightarrow> string \<Rightarrow> dtstate" where
  \<comment> \<open>the state of \<open>extractDateTime\<close> after its five stages\<close>
  "stages clk text =
     (let lowerText = toLowerCase text;
          st = \<lparr>targetDate = now_target clk, targetTime = None, matchedText = []\<rparr>
      in stageTime24 text (stageTime12 text (stageSpecificDate clk text
           (stageWeekday clk lowerText (stageTomorrow clk lowerText st)))))"

definition finalDate :: "clock \<Rightarrow> dtstate \<Rightarrow> int" where
  \<comment> \<open>\<open>targetDate\<close> after \<open>setHours\<close>\<close>
  "finalDate clk st =
     (case targetTime st of
        Some (hours, minutes) \<Rightarrow> setHours (tza clk) (targetDate st) hours minutes 0 0
      | None \<Rightarrow> setHours (tza clk) (targetDate st) 9 0 0 0)"

record dt_match =
  dt_raw :: string
  dt_datetime :: string

definition extractDateTime :: "clock \<Rightarrow> string \<Rightarrow> dt_match option" where
  "extractDateTime clk text =
     (let st = stages clk text in
      Some \<lparr>dt_raw = trim (matchedText st), dt_datetime = toISOString (finalDate clk st)\<rparr>)"

section \<open>The orchestrator\<close>

record ParsedAppointment =
  name :: string
  phone :: string
  details :: string
  datetime :: string

definition afterName :: "string \<Rightarrow> string" where
  \<comment> \<open>the working text after the name step\<close>
  "afterName text =
     (let remainingText = trim text; name' = extractName remainingText in
      if truthy name' then trim (replace_first remainingText (the name')) else remainingText)"

definition afterPhone :: "string \<Rightarrow> string" where
  \<comment> \<open>the working text after the phone step\<close>
  "afterPhone text =
     (let remainingText = afterName text in
      case extractPhone remainingText of
        None \<Rightarrow> remainingText
      | Some phone' \<Rightarrow> trim (replace_first remainingText (raw phone')))"

definition afterDateTime :: "clock \<Rightarrow> string \<Rightarrow> string" where
  \<comment> \<open>the working text after the date and time step\<close>
  "afterDateTime clk text =
     (let remainingText = afterPhone text in
      case extractDateTime clk remainingText of
        None \<Rightarrow> remainingText
      | Some dateTimeInfo \<Rightarrow> trim (replace_first remainingText (dt_raw dateTimeInfo)))"

definition parseAppointment :: "clock \<Rightarrow> string \<Rightarrow> ParsedAppointment option" where
  "parseAppointment clk text =
     (if trim text = [] then None
      else
        (let name' = extractName (trim text);
             phone' = extractPhone (afterName text);
             dateTimeInfo = extractDateTime clk (afterPhone text);
             remainingText = afterDateTime clk text;
             details' = (if trim remainingText = [] then ''No details provided''
                         else trim remainingText)
         in Some \<lparr>name = (if truthy name' then the name' else ''Unknown''),
                    phone = (case phone' of None \<Rightarrow> ''No phone'' | Some p \<Rightarrow> formatted p),
                    details = details',
                    datetime = (case dateTimeInfo of
                                  None \<Rightarrow> toISOString (now_default clk)
                                | Some d \<Rightarrow> dt_datetime d)\<rparr>))"

definition fallbackParser :: "clock \<Rightarrow> string \<Rightarrow> ParsedAppointment option" where
  \<comment> \<open>\<open>fallbackParser\<close> of \<open>src/lib/parser.ts\<close>: line for line the function above\<close>
  "fallbackParser clk text = parseAppointment clk text"

section \<open>The remote extractor and its fallback\<close>



















section \<open>The name, as a run of words\<close>

text \<open>
  The result of \<open>extractName\<close> put in words: a capitalised word at the start of the
  text, then, as long as there are any, a separator and another capitalised word. The
  separator is a parameter: \<open>oneSpace\<close> is the single space of the specification,
  \<open>spaces\<close> the run of white space of the pattern \<open>\s+\<close>.
\<close>

definition leadWord :: "string \<Rightarrow> string option" where
  \<comment> \<open>a capital letter and the lower-case letters that follow it, at least one\<close>
  "leadWord s =
     (case s of
        [] \<Rightarrow> None
      | c # cs \<Rightarrow>
          if isUpper c \<and> takeWhile isLower cs \<noteq> [] then Some (c # takeWhile isLower cs)
          else None)"

function nameRun :: "(string \<Rightarrow> nat) \<Rightarrow> string \<Rightarrow> string" where
  \<comment> \<open>the separators and words that continue a run, \<open>sep s\<close> being the length of the
      separator at the start of \<open>s\<close>\<close>
  "nameRun sep s =
     (let k = sep s in
      if k = 0 \<or> length s < k then []
      else
        (case leadWord (drop k s) of
           None \<Rightarrow> []
         | Some w \<Rightarrow> take k s @ w @ nameRun sep (drop (k + length w) s)))"
  by pat_completeness auto
termination
  by (relation "measure (\<lambda>(sep, s). length s)") auto

definition oneSpace :: "string \<Rightarrow> nat" where
  "oneSpace s = (case s of [] \<Rightarrow> 0 | c # cs \<Rightarrow> if c = CHR '' '' then 1 else 0)"

definition spaces :: "string \<Rightarrow> nat" where
  "spaces s = length (takeWhile isSpace s)"

definition longestRun :: "(string \<Rightarrow> nat) \<Rightarrow> string \<Rightarrow> string option" where
  "longestRun sep text =
     (case leadWord text of
        None \<Rightarrow> None
      | Some w \<Rightarrow> Some (w @ nameRun sep (drop (length w) text)))"

definition capitalised :: "string \<Rightarrow> bool" where
  \<comment> \<open>a capital letter followed by one or more lower-case letters, and nothing else\<close>
  "capitalised w =
     (case w of [] \<Rightarrow> False | c # ls \<Rightarrow> isUpper c \<and> ls \<noteq> [] \<and> list_all isLower ls)"

inductive wordRun :: "string \<Rightarrow> bool" where
  \<comment> \<open>one or more capitalised words, separated by one or more white-space characters\<close>
  one: "capitalised w \<Longrightarrow> wordRun w"
| more: "capitalised w \<Longrightarrow> sp \<noteq> [] \<Longrightarrow> list_all isSpace sp \<Longrightarrow> wordRun r \<Longrightarrow>
         wordRun (w @ sp @ r)"

section \<open>A clock for the examples\<close>

definition clock0 :: clock where
  \<comment> \<open>Monday 2 November 2026, 10:30 local time, seven hours behind UTC\<close>
  "clock0 = \<lparr>tza = - 25200000, now = 1793640600000, now_target = 1793640600000,
              now_default = 1793640600000\<rparr>"

definition st0 :: dtstate where
  \<comment> \<open>some state of the date and time stages\<close>
  "st0 = \<lparr>targetDate = 0, targetTime = None, matchedText = []\<rparr>"

section \<open>Properties of the dates\<close>

text \<open>
  \<open>YearFromDay\<close> is the year of ECMAScript's \<open>YearFromTime\<close>: the largest year
  that starts on or before the day.
\<close>

lemma div_bounds:
  fixes a b :: int
  assumes "0 < b"
  shows "b * (a div b) \<le> a \<and> a - (b - 1) \<le> b * (a div b)"
proof -
  define q where "q = a div b"
  define r where "r = a mod b"
  have "a = b * q + r" unfolding q_def r_def by simp
  moreover have "0 \<le> r" "r < b" unfolding r_def using assms by simp_all
  ultimately show ?thesis unfolding q_def [symmetric] by simp
qed

lemma DayFromYear_bounds:
  "400 * DayFromYear y \<le> 146097 * (y - 1970) + 589 \<and>
   146097 * (y - 1970) - 506 \<le> 400 * DayFromYear y"
proof -
  define q1 where "q1 = (y - 1969) div 4"
  define q2 where "q2 = (y - 1901) div 100"
  define q3 where "q3 = (y - 1601) div 400"
  have a: "4 * q1 \<le> y - 1969 \<and> y - 1969 - (4 - 1) \<le> 4 * q1"
    unfolding q1_def by (rule div_bounds) simp
  have b: "100 * q2 \<le> y - 1901 \<and> y - 1901 - (100 - 1) \<le> 100 * q2"
    unfolding q2_def by (rule div_bounds) simp
  have c: "400 * q3 \<le> y - 1601 \<and> y - 1601 - (400 - 1) \<le> 400 * q3"
    unfolding q3_def by (rule div_bounds) simp
  have "DayFromYear y = 365 * (y - 1970) + q1 - q2 + q3"
    by (simp add: DayFromYear_def q1_def q2_def q3_def)
  with a b c show ?thesis by simp
qed

lemma YearFromDay_bracket:
  "DayFromYear (YearFromDay d) \<le> d \<and> d < DayFromYear (YearFromDay d + 1)"
proof -
  define q where "q = (400 * d) div 146097"
  have e: "146097 * q \<le> 400 * d \<and> 400 * d - (146097 - 1) \<le> 146097 * q"
    unfolding q_def by (rule div_bounds) simp
  have lo: "DayFromYear (1970 + q - 1) \<le> d"
    using DayFromYear_bounds [of "1970 + q - 1"] e by simp
  have hi: "d < DayFromYear (1970 + q + 2)"
    using DayFromYear_bounds [of "1970 + q + 2"] e by simp
  have y: "YearFromDay d =
      (if DayFromYear (1970 + q + 1) \<le> d then 1970 + q + 1
       else if DayFromYear (1970 + q) \<le> d then 1970 + q else 1970 + q - 1)"
    by (simp add: YearFromDay_def Let_def q_def)
  have s: "1970 + q + 1 + 1 = 1970 + q + 2" "1970 + q - 1 + 1 = 1970 + q" by simp_all
  show ?thesis
    unfolding y using lo hi by (simp add: s not_le)
qed

lemma DayFromYear_mono: "DayFromYear y < DayFromYear (y + 1)"
proof -
  have a: "(y - 1969) div 4 \<le> (y + 1 - 1969) div 4" by (intro zdiv_mono1) simp_all
  have c: "(y - 1601) div 400 \<le> (y + 1 - 1601) div 400" by (intro zdiv_mono1) simp_all
  define p where "p = (y - 1901) div 100"
  define p' where "p' = (y + 1 - 1901) div 100"
  have "100 * p \<le> y - 1901 \<and> y - 1901 - (100 - 1) \<le> 100 * p"
    unfolding p_def by (rule div_bounds) simp
  moreover have "100 * p' \<le> y + 1 - 1901 \<and> y + 1 - 1901 - (100 - 1) \<le> 100 * p'"
    unfolding p'_def by (rule div_bounds) simp
  ultimately have b: "p' \<le> p + 1" by simp
  define u where "u = (y - 1969) div 4"
  define u' where "u' = (y + 1 - 1969) div 4"
  define v where "v = (y - 1601) div 400"
  define v' where "v' = (y + 1 - 1601) div 400"
  have "DayFromYear y = 365 * (y - 1970) + u - p + v"
    by (simp add: DayFromYear_def u_def p_def v_def)
  moreover have "DayFromYear (y + 1) = 365 * (y + 1 - 1970) + u' - p' + v'"
    by (simp add: DayFromYear_def u'_def p'_def v'_def)
  moreover have "u \<le> u'" "v \<le> v'" using a c by (simp_all add: u_def u'_def v_def v'_def)
  ultimately show ?thesis using b by simp
qed

lemma DayFromYear_le: "y \<le> z \<Longrightarrow> DayFromYear y \<le> DayFromYear z"
proof (induction z rule: int_ge_induct)
  case base
  show ?case by simp
next
  case (step i)
  with DayFromYear_mono [of i] show ?case by simp
qed

lemma YearFromDay_largest: "DayFromYear y \<le> d \<Longrightarrow> y \<le> YearFromDay d"
proof (rule ccontr)
  assume a: "DayFromYear y \<le> d" and "\<not> y \<le> YearFromDay d"
  then have "YearFromDay d + 1 \<le> y" by simp
  then have "DayFromYear (YearFromDay d + 1) \<le> DayFromYear y" by (rule DayFromYear_le)
  with a YearFromDay_bracket [of d] show False by simp
qed

text \<open>
  A year has 365 days, or 366 when it is a leap year; so the day within the year, the
  month and the day of the month lie in their ranges.
\<close>

lemma leap_range: "0 \<le> leap y \<and> leap y \<le> 1"
  by (simp add: leap_def)

lemma div_succ:
  fixes a b :: int
  assumes "0 < b"
  shows "(a + 1) div b = a div b + (if (a + 1) mod b = 0 then 1 else 0)"
proof -
  define q where "q = a div b"
  define r where "r = a mod b"
  have a: "a = b * q + r" unfolding q_def r_def by simp
  have r: "0 \<le> r" "r < b" unfolding r_def using assms by simp_all
  show ?thesis
  proof (cases "r + 1 < b")
    case True
    have e: "a + 1 = b * q + (r + 1)" using a by simp
    from e have "(a + 1) div b = q" using r True by (intro int_div_pos_eq [of _ b q "r + 1"]) simp_all
    moreover from e have "(a + 1) mod b = r + 1" using r True by (intro int_mod_pos_eq [of _ b q "r + 1"]) simp_all
    ultimately show ?thesis using r by (simp add: q_def)
  next
    case False
    with r have "r + 1 = b" by simp
    then have e: "a + 1 = b * (q + 1) + 0" using a by (simp add: algebra_simps)
    from e have "(a + 1) div b = q + 1" using assms by (intro int_div_pos_eq [of _ b "q + 1" 0]) simp_all
    moreover from e have "(a + 1) mod b = 0" using assms by (intro int_mod_pos_eq [of _ b "q + 1" 0]) simp_all
    ultimately show ?thesis by (simp add: q_def)
  qed
qed

lemma mod_shift: "(y - b * k) mod b = y mod b" for y b k :: int
  by (metis mod_diff_eq mod_mult_self1_is_0 diff_zero mod_mod_trivial)

lemma DaysInYear: "DayFromYear (y + 1) - DayFromYear y = 365 + leap y"
proof -
  define A where "A \<longleftrightarrow> y mod 4 = 0"
  define B where "B \<longleftrightarrow> y mod 100 = 0"
  define C where "C \<longleftrightarrow> y mod 400 = 0"
  define u where "u = (y - 1969) div 4"
  define p where "p = (y - 1901) div 100"
  define v where "v = (y - 1601) div 400"
  have 4: "(y + 1 - 1969) div 4 = u + (if A then 1 else 0)"
    unfolding u_def A_def
    using div_succ [of 4 "y - 1969"] mod_shift [of y 4 492] by (simp add: algebra_simps)
  have 100: "(y + 1 - 1901) div 100 = p + (if B then 1 else 0)"
    unfolding p_def B_def
    using div_succ [of 100 "y - 1901"] mod_shift [of y 100 19] by (simp add: algebra_simps)
  have 400: "(y + 1 - 1601) div 400 = v + (if C then 1 else 0)"
    unfolding v_def C_def
    using div_succ [of 400 "y - 1601"] mod_shift [of y 400 4] by (simp add: algebra_simps)
  have m: "C \<Longrightarrow> B" "B \<Longrightarrow> A"
    unfolding A_def B_def C_def
    by (auto simp: mod_eq_0_iff_dvd elim: dvd_trans [rotated])
  have l: "leap y = (if A \<and> (\<not> B \<or> C) then 1 else 0)"
    by (simp add: leap_def A_def B_def C_def)
  have d0: "DayFromYear y = 365 * (y - 1970) + u - p + v"
    by (simp add: DayFromYear_def u_def p_def v_def)
  have d1: "DayFromYear (y + 1) =
      365 * (y + 1 - 1970) + (u + (if A then 1 else 0)) - (p + (if B then 1 else 0)) +
      (v + (if C then 1 else 0))"
    by (simp only: DayFromYear_def 4 100 400)
  show ?thesis
    unfolding d0 d1 l using m by (cases A; cases B; cases C) simp_all
qed

lemma DayWithinYear_range: "0 \<le> DayWithinYear t \<and> DayWithinYear t < 365 + leap (YearFromTime t)"
  using YearFromDay_bracket [of "Day t"] DaysInYear [of "YearFromTime t"]
  by (simp add: DayWithinYear_def YearFromTime_def)

lemma DateFromTime_range: "1 \<le> DateFromTime t \<and> DateFromTime t \<le> 31"
  using DayWithinYear_range [of t] leap_range [of "YearFromTime t"]
  by (auto simp: DateFromTime_def MonthFromTime_def monthStart_def Let_def)

lemma MonthFromTime_range: "0 \<le> MonthFromTime t \<and> MonthFromTime t \<le> 11"
  by (simp add: MonthFromTime_def Let_def)

lemma MakeDay_DateFromTime:
  "MakeDay (YearFromTime t) (MonthFromTime t) (DateFromTime t + n) = Day t + n"
proof -
  have "MonthFromTime t div 12 = 0" "MonthFromTime t mod 12 = MonthFromTime t"
    using MonthFromTime_range [of t] by simp_all
  then show ?thesis
    by (simp add: MakeDay_def DateFromTime_def DayWithinYear_def Let_def)
qed

lemma Day_TimeWithinDay: "MakeDate (Day t) (TimeWithinDay t) = t"
  by (simp add: MakeDate_def Day_def TimeWithinDay_def)

lemma setDate_getDate: "setDate z t (getDate z t + n) = t + n * msPerDay"
proof -
  have "MakeDate (Day (t + z) + n) (TimeWithinDay (t + z)) = t + z + n * msPerDay"
    using Day_TimeWithinDay [of "t + z"] by (simp add: MakeDate_def algebra_simps)
  then show ?thesis
    by (simp add: setDate_def getDate_def Let_def MakeDay_DateFromTime)
qed

lemma getDay_range: "0 \<le> getDay z t \<and> getDay z t \<le> 6"
  by (simp add: getDay_def WeekDay_def)

lemma Day_add_days: "Day (t + n * msPerDay) = Day t + n"
  by (simp add: Day_def msPerDay_def)

lemma Day_add_days_local: "Day (t + n * msPerDay + z) = Day (t + z) + n"
proof -
  have "t + n * msPerDay + z = (t + z) + n * msPerDay" by simp
  then show ?thesis by (simp only: Day_add_days)
qed

lemma Day_MakeDate: "Day (MakeDate d tm) = d + tm div msPerDay"
  by (simp add: Day_def MakeDate_def msPerDay_def)

lemma Day_setHours:
  "Day (setHours z t h m 0 0 + z) = Day (t + z) + (h * 60 + m) div 1440"
proof -
  have "(h * 3600000 + m * 60000) div 86400000 = (60000 * (h * 60 + m)) div (60000 * 1440)"
    by (simp add: algebra_simps)
  also have "\<dots> = (h * 60 + m) div 1440"
    by (rule div_mult_mult1) simp
  finally have "(h * 3600000 + m * 60000) div 86400000 = (h * 60 + m) div 1440" .
  then show ?thesis
    by (simp add: setHours_def Day_MakeDate MakeTime_def msPerDay_def)
qed

lemma daysToAdd_range:
  "0 \<le> tw \<Longrightarrow> tw \<le> 6 \<Longrightarrow> 0 \<le> cw \<Longrightarrow> cw \<le> 6 \<Longrightarrow>
   1 \<le> daysToAdd tw cw isNext \<and> daysToAdd tw cw isNext \<le> 13"
  by (auto simp: daysToAdd_def Let_def)

lemma daysToAdd_not_next_range:
  "0 \<le> tw \<Longrightarrow> tw \<le> 6 \<Longrightarrow> 0 \<le> cw \<Longrightarrow> cw \<le> 6 \<Longrightarrow>
   1 \<le> daysToAdd tw cw False \<and> daysToAdd tw cw False \<le> 7"
  by (auto simp: daysToAdd_def Let_def)

lemma weekday_reached:
  fixes D tw k :: int
  assumes "0 \<le> tw" "tw \<le> 6"
  shows "(D + (tw - (D + 4) mod 7 + 7 * k) + 4) mod 7 = tw"
proof -
  have "D + 4 = 7 * ((D + 4) div 7) + (D + 4) mod 7" by simp
  then have "D + (tw - (D + 4) mod 7 + 7 * k) + 4 = tw + 7 * ((D + 4) div 7 + k)"
    by (simp add: algebra_simps)
  then have "(D + (tw - (D + 4) mod 7 + 7 * k) + 4) mod 7 = (tw + 7 * ((D + 4) div 7 + k)) mod 7"
    by (rule arg_cong)
  also have "\<dots> = tw mod 7" by (simp only: mod_mult_self2)
  also have "\<dots> = tw" using assms by simp
  finally show ?thesis .
qed

lemma daysToAdd_weekday:
  assumes "0 \<le> tw" "tw \<le> 6"
  shows "WeekDay (t + daysToAdd tw (WeekDay t) isNext * msPerDay) = tw"
proof (cases "tw - WeekDay t \<le> 0 \<or> isNext")
  case True
  then have "daysToAdd tw (WeekDay t) isNext = tw - (Day t + 4) mod 7 + 7 * 1"
    by (simp add: daysToAdd_def WeekDay_def)
  then show ?thesis
    unfolding WeekDay_def Day_add_days using weekday_reached [OF assms, of "Day t" 1] by simp
next
  case False
  then have "daysToAdd tw (WeekDay t) isNext = tw - (Day t + 4) mod 7 + 7 * 0"
    by (simp add: daysToAdd_def WeekDay_def)
  then show ?thesis
    unfolding WeekDay_def Day_add_days using weekday_reached [OF assms, of "Day t" 0] by simp
qed

section \<open>Properties of the matcher\<close>

declare ms.simps(5) [simp del]

lemma ms_Str_iff:
  "s' \<in> set (ms (Str w) inp s) \<longleftrightarrow>
     prefix w (drop (endIndex s) inp) \<and> s' = s\<lparr>endIndex := endIndex s + length w\<rparr>"
  by auto

lemma ms_Seq_iff:
  "s' \<in> set (ms (Seq a b) inp s) \<longleftrightarrow> (\<exists>s1\<in>set (ms a inp s). s' \<in> set (ms b inp s1))"
  by auto

lemma ms_WordB_iff:
  "s' \<in> set (ms WordB inp s) \<longleftrightarrow> atWordBoundary inp (endIndex s) \<and> s' = s"
  by auto

lemma ms_Group_iff:
  "s' \<in> set (ms (Group n a) inp s) \<longleftrightarrow>
     (\<exists>s1\<in>set (ms a inp s).
        s' = s1\<lparr>caps := (n, substr inp (endIndex s) (endIndex s1)) # caps s1\<rparr>)"
  by auto

lemma substr_prefix: "prefix w (drop e inp) \<Longrightarrow> substr inp e (e + length w) = w"
  by (auto simp: substr_def prefix_def)

lemma searchFrom_Some:
  "searchFrom r inp is = Some m \<Longrightarrow>
   \<exists>i\<in>set is. \<exists>s'\<in>set (ms r inp \<lparr>endIndex = i, caps = []\<rparr>).
     whole m = substr inp i (endIndex s') \<and> groups m = caps s'"
proof (induction "is")
  case Nil
  then show ?case by simp
next
  case (Cons i "is")
  show ?case
  proof (cases "ms r inp \<lparr>endIndex = i, caps = []\<rparr>")
    case Nil
    with Cons show ?thesis by auto
  next
    case (Cons s' rest')
    with Cons.prems have "m = \<lparr>whole = substr inp i (endIndex s'), groups = caps s'\<rparr>"
      by simp
    with Cons show ?thesis by auto
  qed
qed

text \<open>
  A match never moves backwards and never leaves the input, so the test on an iteration
  of a star is the test for an end index that differs from the one before.
\<close>

lemma ms_endIndex:
  "s' \<in> set (ms r inp s) \<Longrightarrow> endIndex s \<le> length inp \<Longrightarrow>
   endIndex s \<le> endIndex s' \<and> endIndex s' \<le> length inp"
proof (induction r inp s arbitrary: s' rule: ms.induct)
  case (1 p inp s)
  then show ?case by (auto split: if_splits)
next
  case (2 w inp s)
  then have p: "prefix w (drop (endIndex s) inp)" and s': "s' = s\<lparr>endIndex := endIndex s + length w\<rparr>"
    by (auto split: if_splits)
  from p have "length w \<le> length (drop (endIndex s) inp)" by (rule prefix_length_le)
  with 2 s' show ?case by simp
next
  case (3 a b inp s)
  then obtain s1 where s1: "s1 \<in> set (ms a inp s)" and s': "s' \<in> set (ms b inp s1)"
    by auto
  from "3.IH"(1) [OF s1 "3.prems"(2)] have a: "endIndex s \<le> endIndex s1 \<and> endIndex s1 \<le> length inp" .
  from "3.IH"(2) [OF s1 s'] a show ?case by simp
next
  case (4 a b inp s)
  then show ?case by auto
next
  case (5 a inp s)
  from "5.prems"(1) consider "s' = s"
    | s1 where "s1 \<in> set (ms a inp s)" "endIndex s < endIndex s1" "endIndex s1 \<le> length inp"
        "s' \<in> set (ms (Star a) inp s1)"
    by (subst (asm) ms.simps(5)) (auto split: if_splits)
  then show ?case
  proof cases
    case 1
    with "5.prems" show ?thesis by simp
  next
    case 2
    from "5.IH"(2) [OF 2(1) _ 2(4) 2(3)] 2(2) 2(3) show ?thesis by simp
  qed
next
  case (6 n a inp s)
  then show ?case by auto
next
  case (7 inp s)
  then show ?case by (auto split: if_splits)
next
  case (8 inp s)
  then show ?case by (auto split: if_splits)
next
  case (9 inp s)
  then show ?case by simp
qed

lemma star_guard:
  assumes "s' \<in> set (ms a inp s)" and "endIndex s \<le> length inp"
  shows "(endIndex s < endIndex s' \<and> endIndex s' \<le> length inp) = (endIndex s' \<noteq> endIndex s)"
  using ms_endIndex [OF assms] by auto

section \<open>Properties of the orchestrator\<close>

lemma formatDigits_nonempty: "formatDigits d \<noteq> []"
  by (simp add: formatDigits_def)

lemma tryPatterns_formatted: "tryPatterns ps text = Some p \<Longrightarrow> formatted p \<noteq> []"
  by (induction ps) (auto simp: Let_def formatDigits_nonempty split: option.splits if_splits)

lemma toISOString_nonempty: "toISOString t \<noteq> []"
  by (simp add: toISOString_def Let_def)

text \<open>
  C1: an input whose trim is empty gives no record; any other input gives a record whose
  four fields are non-empty strings, with the sentinel \<open>Unknown\<close> when no name is found,
  \<open>No phone\<close> when no phone is found and \<open>No details provided\<close> when nothing is left
  of the working text. \<open>fallbackParser\<close> gives the same result.
\<close>

theorem parseAppointment_total:
  "(trim text = [] \<longrightarrow> parseAppointment clk text = None \<and> fallbackParser clk text = None) \<and>
   (trim text \<noteq> [] \<longrightarrow>
      (\<exists>r. parseAppointment clk text = Some r \<and> fallbackParser clk text = Some r \<and>
           name r \<noteq> [] \<and> phone r \<noteq> [] \<and> details r \<noteq> [] \<and> datetime r \<noteq> [] \<and>
           (extractName (trim text) = None \<longrightarrow> name r = ''Unknown'') \<and>
           (extractPhone (afterName text) = None \<longrightarrow> phone r = ''No phone'') \<and>
           (trim (afterDateTime clk text) = [] \<longrightarrow> details r = ''No details provided'')))"
proof (cases "trim text = []")
  case True
  then show ?thesis by (simp add: parseAppointment_def fallbackParser_def)
next
  case False
  have ph: "(case extractPhone (afterName text) of None \<Rightarrow> ''No phone'' | Some p \<Rightarrow> formatted p) \<noteq> []"
  proof (cases "extractPhone (afterName text)")
    case None
    then show ?thesis by simp
  next
    case (Some p)
    then have "formatted p \<noteq> []"
      unfolding extractPhone_def by (rule tryPatterns_formatted)
    with Some show ?thesis by simp
  qed
  have nm: "(if truthy (extractName (trim text)) then the (extractName (trim text)) else ''Unknown'') \<noteq> []"
    by (auto simp: truthy_def split: option.splits)
  have dt: "(case extractDateTime clk (afterPhone text) of None \<Rightarrow> toISOString (now_default clk)
              | Some d \<Rightarrow> dt_datetime d) \<noteq> []"
    by (simp add: extractDateTime_def Let_def toISOString_nonempty)
  from False ph nm dt show ?thesis
    by (simp add: parseAppointment_def fallbackParser_def Let_def truthy_def)
qed

theorem parseAppointment_total_witness:
  "parseAppointment clock0 '''' = None \<and> parseAppointment clock0 ''   '' = None \<and>
   (\<exists>r. parseAppointment clock0 ''hello'' = Some r \<and> name r = ''Unknown'' \<and>
        phone r = ''No phone'' \<and> details r \<noteq> [] \<and> datetime r \<noteq> [])"
proof -
  have e1: "trim '''' = []" by code_simp
  have e2: "trim ''   '' = []" by code_simp
  have e3: "trim ''hello'' \<noteq> []" by code_simp
  have n: "extractName (trim ''hello'') = None" by code_simp
  have p: "extractPhone (afterName ''hello'') = None" by code_simp
  show ?thesis
    using parseAppointment_total [of "''''" clock0] parseAppointment_total [of "''   ''" clock0]
      parseAppointment_total [of "''hello''" clock0] e1 e2 e3 n p
    by auto
qed

section \<open>Properties of the remote fallback\<close>









section \<open>The date and time step in the orchestrator\<close>

lemma no_cue_extractDateTime:
  assumes "\<not> includes_str (toLowerCase text) ''tomorrow''"
    and "match (toLowerCase text) weekdayRe = None"
    and "match text specificDateRe = None"
    and "match text time12Re = None"
    and "match text time24Re = None"
  shows "extractDateTime clk text =
     Some \<lparr>dt_raw = [], dt_datetime = toISOString (setHours (tza clk) (now_target clk) 9 0 0 0)\<rparr>"
  using assms
  by (simp add: extractDateTime_def stages_def stageTomorrow_def stageWeekday_def
      stageSpecificDate_def stageTime12_def stageTime24_def finalDate_def Let_def trim_def)

text \<open>
  C2 at the input \<open>hello\<close>, which has no cue of a date or a time: the datetime of the
  record is 09:00 local time of the day of the call (16:00 UTC), not the moment of the
  call (17:30 UTC). \<open>extractDateTime\<close> never returns \<open>null\<close>, so the orchestrator
  never takes its default.
\<close>

theorem no_cue_datetime_is_nine_oclock:
  "\<not> includes_str (toLowerCase ''hello'') ''tomorrow'' \<and>
   match (toLowerCase ''hello'') weekdayRe = None \<and>
   match ''hello'' specificDateRe = None \<and>
   match ''hello'' time12Re = None \<and>
   match ''hello'' time24Re = None \<and>
   parseAppointment clock0 ''hello'' =
     Some \<lparr>name = ''Unknown'', phone = ''No phone'', details = ''hello'',
           datetime = ''2026-11-02T16:00:00.000Z''\<rparr> \<and>
   toISOString (now clock0) = ''2026-11-02T17:30:00.000Z'' \<and>
   toISOString (now_target clock0) = ''2026-11-02T17:30:00.000Z'' \<and>
   toISOString (now_default clock0) = ''2026-11-02T17:30:00.000Z''"
proof -
  have c: "\<not> includes_str (toLowerCase ''hello'') ''tomorrow''"
    "match (toLowerCase ''hello'') weekdayRe = None"
    "match ''hello'' specificDateRe = None"
    "match ''hello'' time12Re = None"
    "match ''hello'' time24Re = None"
    by code_simp+
  have t: "trim ''hello'' = ''hello''" by code_simp
  have n: "extractName ''hello'' = None" by code_simp
  have p: "extractPhone ''hello'' = None" by code_simp
  have an: "afterName ''hello'' = ''hello''" by (simp add: afterName_def Let_def t n truthy_def)
  have ap: "afterPhone ''hello'' = ''hello''" by (simp add: afterPhone_def Let_def an p)
  note dt = no_cue_extractDateTime [OF c, of clock0]
  have ad: "afterDateTime clock0 ''hello'' = ''hello''"
    by (simp add: afterDateTime_def Let_def ap dt t)
  have iso: "toISOString (setHours (tza clock0) (now_target clock0) 9 0 0 0) = ''2026-11-02T16:00:00.000Z''"
    by code_simp
  have now: "toISOString (now clock0) = ''2026-11-02T17:30:00.000Z''"
    "toISOString (now_target clock0) = ''2026-11-02T17:30:00.000Z''"
    "toISOString (now_default clock0) = ''2026-11-02T17:30:00.000Z''"
    by code_simp+
  have "parseAppointment clock0 ''hello'' =
     Some \<lparr>name = ''Unknown'', phone = ''No phone'', details = ''hello'',
           datetime = ''2026-11-02T16:00:00.000Z''\<rparr>"
    by (simp add: parseAppointment_def Let_def t n p an ap ad dt iso truthy_def)
  with c now show ?thesis by simp
qed

text \<open>
  C4 at the inputs \<open>fix sink Tuesday\<close> and \<open>meet tuesday at 3pm\<close>: the date and
  time step succeeds and reports \<open>tuesday\<close> (lower case) and \<open>tuesday 3pm\<close>
  (the two matches joined by a space); neither occurs in the working text, and the
  orchestrator removes nothing.
\<close>

theorem date_text_stays_in_details:
  "extractDateTime clock0 ''fix sink Tuesday'' =
     Some \<lparr>dt_raw = ''tuesday'', dt_datetime = ''2026-11-03T16:00:00.000Z''\<rparr> \<and>
   afterPhone ''fix sink Tuesday'' = ''fix sink Tuesday'' \<and>
   afterDateTime clock0 ''fix sink Tuesday'' = ''fix sink Tuesday'' \<and>
   parseAppointment clock0 ''fix sink Tuesday'' =
     Some \<lparr>name = ''Unknown'', phone = ''No phone'', details = ''fix sink Tuesday'',
           datetime = ''2026-11-03T16:00:00.000Z''\<rparr> \<and>
   extractDateTime clock0 ''meet tuesday at 3pm'' =
     Some \<lparr>dt_raw = ''tuesday 3pm'', dt_datetime = ''2026-11-03T22:00:00.000Z''\<rparr> \<and>
   afterDateTime clock0 ''meet tuesday at 3pm'' = ''meet tuesday at 3pm''"
proof -
  let ?t = "''fix sink Tuesday''"
  let ?u = "''meet tuesday at 3pm''"
  have d: "extractDateTime clock0 ?t =
     Some \<lparr>dt_raw = ''tuesday'', dt_datetime = ''2026-11-03T16:00:00.000Z''\<rparr>"
    by code_simp
  have ap: "afterPhone ?t = ?t" by code_simp
  have r: "trim (replace_first ?t ''tuesday'') = ?t" "trim ?t = ?t" by code_simp+
  have ad: "afterDateTime clock0 ?t = ?t"
    by (simp add: afterDateTime_def Let_def ap d r)
  have n: "extractName ?t = None" "afterName ?t = ?t" "extractPhone ?t = None"
    by code_simp+
  have pa: "parseAppointment clock0 ?t =
     Some \<lparr>name = ''Unknown'', phone = ''No phone'', details = ''fix sink Tuesday'',
           datetime = ''2026-11-03T16:00:00.000Z''\<rparr>"
    by (simp add: parseAppointment_def Let_def r n ap ad d truthy_def)
  have d': "extractDateTime clock0 ?u =
     Some \<lparr>dt_raw = ''tuesday 3pm'', dt_datetime = ''2026-11-03T22:00:00.000Z''\<rparr>"
    by code_simp
  have ap': "afterPhone ?u = ?u" by code_simp
  have r': "trim (replace_first ?u ''tuesday 3pm'') = ?u" "trim ?u = ?u" by code_simp+
  have ad': "afterDateTime clock0 ?u = ?u"
    by (simp add: afterDateTime_def Let_def ap' d' r')
  from d ap ad pa d' ad' show ?thesis by simp
qed

section \<open>The example of the specification\<close>

lemma stages_wants:
  "stages clk ''wants estimate Tuesday at 3pm'' =
     \<lparr>targetDate = now clk + daysToAdd 2 (getDay (tza clk) (now clk)) False * msPerDay,
      targetTime = Some (15, 0), matchedText = ''tuesday 3pm''\<rparr>"
proof -
  let ?t = "''wants estimate Tuesday at 3pm''"
  have a: "includes_str (toLowerCase ?t) ''tomorrow'' = False" by code_simp
  have b: "match (toLowerCase ?t) weekdayRe = Some \<lparr>whole = ''tuesday'', groups = [(2, ''tuesday'')]\<rparr>"
    by code_simp
  have c: "match ?t specificDateRe = None" by code_simp
  have d: "match ?t time12Re = Some \<lparr>whole = ''3pm'', groups = [(3, ''pm''), (1, ''3'')]\<rparr>"
    by code_simp
  have e: "match ?t time24Re = None" by code_simp
  have f: "indexOf weekdays ''tuesday'' = 2" by code_simp
  have g: "hours12 (toLowerCase ''pm'') (parseInt ''3'') = 15" by code_simp
  show ?thesis
    by (simp add: stages_def stageTomorrow_def stageWeekday_def stageSpecificDate_def
        stageTime12_def stageTime24_def Let_def a b c d e f g group_def grp_def truthy_def
        setDate_getDate)
qed

lemma trim_john: "trim ''John Doe 7205551212 wants estimate Tuesday at 3pm'' =
   ''John Doe 7205551212 wants estimate Tuesday at 3pm''"
  by code_simp

lemma name_john: "extractName ''John Doe 7205551212 wants estimate Tuesday at 3pm'' = Some ''John Doe''"
  by code_simp

lemma afterName_john: "afterName ''John Doe 7205551212 wants estimate Tuesday at 3pm'' =
   ''7205551212 wants estimate Tuesday at 3pm''"
proof -
  have "trim (replace_first ''John Doe 7205551212 wants estimate Tuesday at 3pm'' ''John Doe'') =
     ''7205551212 wants estimate Tuesday at 3pm''" by code_simp
  then show ?thesis by (simp add: afterName_def Let_def trim_john name_john truthy_def)
qed

lemma phone_john: "extractPhone ''7205551212 wants estimate Tuesday at 3pm'' =
   Some \<lparr>raw = ''7205551212'', formatted = ''720-555-1212''\<rparr>"
  by code_simp

lemma afterPhone_john: "afterPhone ''John Doe 7205551212 wants estimate Tuesday at 3pm'' =
   ''wants estimate Tuesday at 3pm''"
proof -
  have "trim (replace_first ''7205551212 wants estimate Tuesday at 3pm'' ''7205551212'') =
     ''wants estimate Tuesday at 3pm''" by code_simp
  then show ?thesis by (simp add: afterPhone_def Let_def afterName_john phone_john)
qed

lemma afterDateTime_john: "afterDateTime clk ''John Doe 7205551212 wants estimate Tuesday at 3pm'' =
   ''wants estimate Tuesday at 3pm''"
proof -
  have "trim (replace_first ''wants estimate Tuesday at 3pm'' (trim ''tuesday 3pm'')) =
     ''wants estimate Tuesday at 3pm''" by code_simp
  then show ?thesis
    by (simp add: afterDateTime_def Let_def afterPhone_john extractDateTime_def stages_wants)
qed

text \<open>
  C3: on \<open>John Doe 7205551212 wants estimate Tuesday at 3pm\<close> the time of day is
  15:00 local and the date is the day of the call plus the days to the next Tuesday, for
  every clock; the details are \<open>wants estimate Tuesday at 3pm\<close>, not
  \<open>wants estimate\<close>: the text \<open>tuesday 3pm\<close> that the date and time step
  reports does not occur in the working text, so nothing is removed.
\<close>

theorem john_doe_example:
  "parseAppointment clk ''John Doe 7205551212 wants estimate Tuesday at 3pm'' =
     Some \<lparr>name = ''John Doe'', phone = ''720-555-1212'',
           details = ''wants estimate Tuesday at 3pm'',
           datetime = toISOString
             (MakeDate (Day (now clk + tza clk) + daysToAdd 2 (getDay (tza clk) (now clk)) False)
                       (MakeTime 15 0 0 0) - tza clk)\<rparr> \<and>
   1 \<le> daysToAdd 2 (getDay (tza clk) (now clk)) False \<and>
   daysToAdd 2 (getDay (tza clk) (now clk)) False \<le> 7 \<and>
   WeekDay (MakeDate (Day (now clk + tza clk) + daysToAdd 2 (getDay (tza clk) (now clk)) False)
                     (MakeTime 15 0 0 0)) = 2"
proof -
  let ?n = "daysToAdd 2 (getDay (tza clk) (now clk)) False"
  have t: "trim ''wants estimate Tuesday at 3pm'' = ''wants estimate Tuesday at 3pm''" by code_simp
  have d: "Day (now clk + ?n * msPerDay + tza clk) = Day (now clk + tza clk) + ?n"
    by (rule Day_add_days_local)
  have rec: "parseAppointment clk ''John Doe 7205551212 wants estimate Tuesday at 3pm'' =
     Some \<lparr>name = ''John Doe'', phone = ''720-555-1212'',
           details = ''wants estimate Tuesday at 3pm'',
           datetime = toISOString
             (MakeDate (Day (now clk + tza clk) + ?n) (MakeTime 15 0 0 0) - tza clk)\<rparr>"
    by (simp add: parseAppointment_def Let_def trim_john name_john afterName_john phone_john
        afterPhone_john afterDateTime_john extractDateTime_def stages_wants truthy_def t
        finalDate_def setHours_def d)
  have rng: "1 \<le> ?n \<and> ?n \<le> 7"
    using getDay_range [of "tza clk" "now clk"] by (intro daysToAdd_not_next_range) simp_all
  have "WeekDay (now clk + tza clk + ?n * msPerDay) = 2"
    unfolding getDay_def by (rule daysToAdd_weekday) simp_all
  then have "(Day (now clk + tza clk) + ?n + 4) mod 7 = 2"
    by (simp only: WeekDay_def Day_add_days)
  moreover have "MakeTime 15 0 0 0 div msPerDay = 0"
    by (simp add: MakeTime_def msPerDay_def)
  ultimately have wd: "WeekDay (MakeDate (Day (now clk + tza clk) + ?n) (MakeTime 15 0 0 0)) = 2"
    by (simp add: WeekDay_def Day_MakeDate)
  from rec rng wd show ?thesis by simp
qed

section \<open>The stages of the date\<close>

lemma targetDate_stageTime12 [simp]: "targetDate (stageTime12 text st) = targetDate st"
  by (simp add: stageTime12_def Let_def split: option.splits)

lemma targetDate_stageTime24 [simp]: "targetDate (stageTime24 text st) = targetDate st"
  by (simp add: stageTime24_def Let_def split: option.splits)

lemma targetDate_stageSpecificDate_None:
  "match text specificDateRe = None \<Longrightarrow>
   targetDate (stageSpecificDate clk text st) = targetDate st"
  by (simp add: stageSpecificDate_def)

lemma targetDate_stageSpecificDate_Some:
  "match text specificDateRe \<noteq> None \<Longrightarrow>
   targetDate (stageSpecificDate clk text st) = targetDate (stageSpecificDate clk text st')"
  by (auto simp: stageSpecificDate_def Let_def)

lemma targetDate_stageWeekday_Some:
  "match lowerText weekdayRe \<noteq> None \<Longrightarrow>
   targetDate (stageWeekday clk lowerText st) = targetDate (stageWeekday clk lowerText st')"
  by (auto simp: stageWeekday_def Let_def)

lemma Day_finalDate:
  "(case targetTime st of None \<Rightarrow> True
    | Some (h, m) \<Rightarrow> 0 \<le> h * 60 + m \<and> h * 60 + m < 1440) \<Longrightarrow>
   Day (finalDate clk st + tza clk) = Day (targetDate st + tza clk)"
  by (auto simp: finalDate_def Day_setHours split: option.splits)

text \<open>
  C6, as the code has it: when a weekday name matches and no numeric date does, the
  working date is the one of the weekday stage, whatever the stage before did; when a
  numeric date matches, the working date is the one of that stage, whatever the stages
  before did; and the day of the returned datetime is the day of the working date
  whenever the time of day applied to it is less than 24 hours.
\<close>

theorem stage_overwrite:
  "(match (toLowerCase text) weekdayRe \<noteq> None \<and> match text specificDateRe = None \<longrightarrow>
      targetDate (stages clk text) = targetDate (stageWeekday clk (toLowerCase text) st)) \<and>
   (match text specificDateRe \<noteq> None \<longrightarrow>
      targetDate (stages clk text) = targetDate (stageSpecificDate clk text st)) \<and>
   ((case targetTime (stages clk text) of None \<Rightarrow> True
     | Some (h, m) \<Rightarrow> 0 \<le> h * 60 + m \<and> h * 60 + m < 1440) \<longrightarrow>
      Day (finalDate clk (stages clk text) + tza clk) = Day (targetDate (stages clk text) + tza clk))"
proof (intro conjI impI)
  let ?lower = "toLowerCase text"
  let ?s0 = "\<lparr>targetDate = now_target clk, targetTime = None, matchedText = []\<rparr>"
  let ?s1 = "stageTomorrow clk ?lower ?s0"
  let ?s2 = "stageWeekday clk ?lower ?s1"
  have unfold: "targetDate (stages clk text) = targetDate (stageSpecificDate clk text ?s2)"
    by (simp add: stages_def Let_def)
  {
    assume a: "match ?lower weekdayRe \<noteq> None \<and> match text specificDateRe = None"
    have "targetDate (stageSpecificDate clk text ?s2) = targetDate ?s2"
      using a by (simp add: targetDate_stageSpecificDate_None)
    also have "\<dots> = targetDate (stageWeekday clk ?lower st)"
      using a by (intro targetDate_stageWeekday_Some) simp
    finally show "targetDate (stages clk text) = targetDate (stageWeekday clk ?lower st)"
      using unfold by simp
  }
  {
    assume a: "match text specificDateRe \<noteq> None"
    then have "targetDate (stageSpecificDate clk text ?s2) = targetDate (stageSpecificDate clk text st)"
      by (rule targetDate_stageSpecificDate_Some)
    then show "targetDate (stages clk text) = targetDate (stageSpecificDate clk text st)"
      using unfold by simp
  }
  {
    assume "case targetTime (stages clk text) of None \<Rightarrow> True
       | Some (h, m) \<Rightarrow> 0 \<le> h * 60 + m \<and> h * 60 + m < 1440"
    then show "Day (finalDate clk (stages clk text) + tza clk) =
        Day (targetDate (stages clk text) + tza clk)"
      by (rule Day_finalDate)
  }
qed

lemma stages_tf7:
  "stages clk ''x tomorrow friday 7pm'' =
     \<lparr>targetDate = now clk + daysToAdd 5 (getDay (tza clk) (now clk)) False * msPerDay,
      targetTime = Some (19, 0), matchedText = ''friday 7pm''\<rparr>"
proof -
  let ?t = "''x tomorrow friday 7pm''"
  have a: "includes_str (toLowerCase ?t) ''tomorrow'' = True" by code_simp
  have b: "match (toLowerCase ?t) weekdayRe = Some \<lparr>whole = ''friday'', groups = [(2, ''friday'')]\<rparr>"
    by code_simp
  have c: "match ?t specificDateRe = None" by code_simp
  have d: "match ?t time12Re = Some \<lparr>whole = ''7pm'', groups = [(3, ''pm''), (1, ''7'')]\<rparr>"
    by code_simp
  have e: "match ?t time24Re = None" by code_simp
  have f: "indexOf weekdays ''friday'' = 5" by code_simp
  have g: "hours12 (toLowerCase ''pm'') (parseInt ''7'') = 19" by code_simp
  show ?thesis
    by (simp add: stages_def stageTomorrow_def stageWeekday_def stageSpecificDate_def
        stageTime12_def stageTime24_def Let_def a b c d e f g group_def grp_def truthy_def
        setDate_getDate)
qed

lemma stages_date:
  "stages clk ''x tomorrow friday 2/30 14:45'' =
     \<lparr>targetDate = newDate (tza clk) (getFullYear (tza clk) (now clk)) 1 30,
      targetTime = Some (14, 45), matchedText = ''2/30 14:45''\<rparr>"
proof -
  let ?t = "''x tomorrow friday 2/30 14:45''"
  have a: "includes_str (toLowerCase ?t) ''tomorrow'' = True" by code_simp
  have b: "match (toLowerCase ?t) weekdayRe = Some \<lparr>whole = ''friday'', groups = [(2, ''friday'')]\<rparr>"
    by code_simp
  have c: "match ?t specificDateRe = Some \<lparr>whole = ''2/30'', groups = [(2, ''30''), (1, ''2'')]\<rparr>"
    by code_simp
  have d: "match ?t time12Re = None" by code_simp
  have e: "match ?t time24Re = Some \<lparr>whole = ''14:45'', groups = [(2, ''45''), (1, ''14'')]\<rparr>"
    by code_simp
  have f: "parseInt ''2'' = 2" "parseInt ''30'' = 30" "parseInt ''14'' = 14" "parseInt ''45'' = 45"
    by code_simp+
  show ?thesis
    by (simp add: stages_def stageTomorrow_def stageWeekday_def stageSpecificDate_def
        stageTime12_def stageTime24_def Let_def a b c d e f group_def grp_def truthy_def)
qed

theorem stage_overwrite_witness:
  "includes_str (toLowerCase ''x tomorrow friday 7pm'') ''tomorrow'' \<and>
   match (toLowerCase ''x tomorrow friday 7pm'') weekdayRe \<noteq> None \<and>
   targetDate (stages clock0 ''x tomorrow friday 7pm'') =
     targetDate (stageWeekday clock0 (toLowerCase ''x tomorrow friday 7pm'') st0) \<and>
   targetDate (stages clock0 ''x tomorrow friday 7pm'') = now clock0 + 4 * msPerDay \<and>
   Day (finalDate clock0 (stages clock0 ''x tomorrow friday 7pm'') + tza clock0) =
     Day (now clock0 + tza clock0) + 4 \<and>
   match ''x tomorrow friday 2/30 14:45'' specificDateRe \<noteq> None \<and>
   targetDate (stages clock0 ''x tomorrow friday 2/30 14:45'') =
     targetDate (stageSpecificDate clock0 ''x tomorrow friday 2/30 14:45'' st0) \<and>
   targetDate (stages clock0 ''x tomorrow friday 2/30 14:45'') = newDate (tza clock0) 2026 1 30"
proof -
  let ?t = "''x tomorrow friday 7pm''"
  let ?u = "''x tomorrow friday 2/30 14:45''"
  have a: "includes_str (toLowerCase ?t) ''tomorrow''" by code_simp
  have b: "match (toLowerCase ?t) weekdayRe \<noteq> None" by code_simp
  have c: "match ?t specificDateRe = None" by code_simp
  have d: "match ?u specificDateRe \<noteq> None" by code_simp
  have g: "daysToAdd 5 (getDay (tza clock0) (now clock0)) False = 4" by code_simp
  have y: "getFullYear (tza clock0) (now clock0) = 2026" by code_simp
  have tt: "case targetTime (stages clock0 ?t) of None \<Rightarrow> True
     | Some (h, m) \<Rightarrow> 0 \<le> h * 60 + m \<and> h * 60 + m < 1440"
    by (simp add: stages_tf7)
  have td: "targetDate (stages clock0 ?t) = now clock0 + 4 * msPerDay"
    by (simp add: stages_tf7 g)
  have dd: "targetDate (stages clock0 ?u) = newDate (tza clock0) 2026 1 30"
    by (simp add: stages_date y)
  from stage_overwrite [of ?t clock0 st0] a b c tt td
  have 1: "targetDate (stages clock0 ?t) = targetDate (stageWeekday clock0 (toLowerCase ?t) st0)"
    and 2: "Day (finalDate clock0 (stages clock0 ?t) + tza clock0) = Day (now clock0 + tza clock0) + 4"
    by (simp_all add: Day_add_days_local)
  from stage_overwrite [of ?u clock0 st0] d
  have 3: "targetDate (stages clock0 ?u) = targetDate (stageSpecificDate clock0 ?u st0)"
    by simp
  from a b 1 2 3 d td dd show ?thesis by simp
qed

text \<open>
  With \<open>tomorrow\<close>, \<open>friday\<close> and \<open>19pm\<close> in the text, the returned datetime is
  on the Saturday, one day after the date of the weekday stage.
\<close>

theorem stage_overwrite_counterexample:
  "includes_str (toLowerCase ''x tomorrow friday 19pm'') ''tomorrow'' \<and>
   match (toLowerCase ''x tomorrow friday 19pm'') weekdayRe \<noteq> None \<and>
   match ''x tomorrow friday 19pm'' specificDateRe = None \<and>
   Day (targetDate (stageWeekday clock0 (toLowerCase ''x tomorrow friday 19pm'') st0) + tza clock0) =
     Day (now clock0 + tza clock0) + 4 \<and>
   Day (finalDate clock0 (stages clock0 ''x tomorrow friday 19pm'') + tza clock0) =
     Day (now clock0 + tza clock0) + 5 \<and>
   extractDateTime clock0 ''x tomorrow friday 19pm'' =
     Some \<lparr>dt_raw = ''friday 19pm'', dt_datetime = ''2026-11-07T14:00:00.000Z''\<rparr>"
  by code_simp

section \<open>The weekday stage\<close>

lemma ms_weekdayNames:
  "s' \<in> set (ms weekdayNames inp s) \<Longrightarrow>
   \<exists>w\<in>set weekdays. prefix w (drop (endIndex s) inp) \<and> s' = s\<lparr>endIndex := endIndex s + length w\<rparr>"
  by (auto simp: weekdayNames_def weekdays_def split: if_splits)

lemma ms_weekdayRe_group2:
  assumes "s' \<in> set (ms weekdayRe inp s)"
  shows "\<exists>w\<in>set weekdays. map_of (caps s') 2 = Some w"
proof -
  from assms obtain s2 s3 where
    s3: "s3 \<in> set (ms weekdayNames inp s2)"
    and s': "s' = s3\<lparr>caps := (2, substr inp (endIndex s2) (endIndex s3)) # caps s3\<rparr>"
    unfolding weekdayRe_def
    by (auto simp only: ms_Seq_iff ms_Group_iff ms_WordB_iff)
  from ms_weekdayNames [OF s3] obtain w where
    w: "w \<in> set weekdays" "prefix w (drop (endIndex s2) inp)"
      "s3 = s2\<lparr>endIndex := endIndex s2 + length w\<rparr>"
    by blast
  then have "substr inp (endIndex s2) (endIndex s3) = w"
    by (simp add: substr_prefix)
  with s' w(1) show ?thesis by auto
qed

lemma match_weekdayRe_group2:
  assumes "match lowerText weekdayRe = Some m"
  shows "\<exists>w\<in>set weekdays. group m 2 = Some w"
proof -
  from assms obtain i s' where "s' \<in> set (ms weekdayRe lowerText \<lparr>endIndex = i, caps = []\<rparr>)"
    and "groups m = caps s'"
    unfolding match_def by (blast dest: searchFrom_Some)
  then show ?thesis
    using ms_weekdayRe_group2 [of s' lowerText] by (auto simp: group_def)
qed

lemma indexOf_weekdays: "w \<in> set weekdays \<Longrightarrow> 0 \<le> indexOf weekdays w \<and> indexOf weekdays w \<le> 6"
  by (auto simp: weekdays_def)

text \<open>
  C7: when the weekday pattern matches, its second group is one of the seven names, and
  the stage sets the working date to now plus \<open>n\<close> days, where \<open>n\<close> is the index of
  the name minus the current weekday, plus 7 exactly when that difference is at most 0
  or the group of \<open>next\<close> took part in the match. So \<open>n\<close> is between 1 and 13: the
  date is 1 to 13 days after today, and it falls on the weekday named.
\<close>

theorem weekday_stage_offset:
  assumes "match lowerText weekdayRe = Some m"
  shows "\<exists>w tw n. group m 2 = Some w \<and> w \<in> set weekdays \<and> tw = indexOf weekdays w \<and>
           0 \<le> tw \<and> tw \<le> 6 \<and>
           n = tw - getDay (tza clk) (now clk) +
               (if tw - getDay (tza clk) (now clk) \<le> 0 \<or> group m 1 \<noteq> None then 7 else 0) \<and>
           1 \<le> n \<and> n \<le> 13 \<and>
           targetDate (stageWeekday clk lowerText st) = now clk + n * msPerDay \<and>
           getDay (tza clk) (targetDate (stageWeekday clk lowerText st)) = tw \<and>
           Day (targetDate (stageWeekday clk lowerText st) + tza clk) = Day (now clk + tza clk) + n \<and>
           matchedText (stageWeekday clk lowerText st) = whole m"
proof -
  from match_weekdayRe_group2 [OF assms] obtain w where
    w: "w \<in> set weekdays" "group m 2 = Some w" by blast
  let ?tw = "indexOf weekdays w"
  let ?cw = "getDay (tza clk) (now clk)"
  let ?n = "daysToAdd ?tw ?cw (group m 1 \<noteq> None)"
  have tw: "0 \<le> ?tw \<and> ?tw \<le> 6" using w(1) by (rule indexOf_weekdays)
  have n_def: "?n = ?tw - ?cw + (if ?tw - ?cw \<le> 0 \<or> group m 1 \<noteq> None then 7 else 0)"
    by (simp add: daysToAdd_def Let_def)
  have rng: "1 \<le> ?n \<and> ?n \<le> 13"
    using tw getDay_range [of "tza clk" "now clk"] by (intro daysToAdd_range) simp_all
  have td: "targetDate (stageWeekday clk lowerText st) = now clk + ?n * msPerDay"
    using assms w(2) by (simp add: stageWeekday_def Let_def setDate_getDate)
  have mt: "matchedText (stageWeekday clk lowerText st) = whole m"
    using assms by (simp add: stageWeekday_def Let_def)
  have eq: "targetDate (stageWeekday clk lowerText st) + tza clk = now clk + tza clk + ?n * msPerDay"
    by (simp add: td)
  have wd: "getDay (tza clk) (targetDate (stageWeekday clk lowerText st)) = ?tw"
    unfolding getDay_def eq using tw by (intro daysToAdd_weekday) simp_all
  have dy: "Day (targetDate (stageWeekday clk lowerText st) + tza clk) = Day (now clk + tza clk) + ?n"
    by (simp only: td Day_add_days_local)
  from w tw n_def rng td wd dy mt show ?thesis by metis
qed

theorem weekday_stage_offset_witness:
  "match ''next friday'' weekdayRe =
     Some \<lparr>whole = ''next friday'', groups = [(2, ''friday''), (1, ''next '')]\<rparr> \<and>
   getDay (tza clock0) (now clock0) = 1 \<and>
   targetDate (stageWeekday clock0 ''next friday'' st0) = now clock0 + 11 * msPerDay \<and>
   getDay (tza clock0) (targetDate (stageWeekday clock0 ''next friday'' st0)) = 5"
proof -
  let ?m = "\<lparr>whole = ''next friday'', groups = [(2, ''friday''), (1, ''next '')]\<rparr>"
  have m: "match ''next friday'' weekdayRe = Some ?m" by code_simp
  have cw: "getDay (tza clock0) (now clock0) = 1" by code_simp
  have g: "group ?m 2 = Some ''friday''" "group ?m 1 \<noteq> None" by code_simp+
  have i: "indexOf weekdays ''friday'' = 5" by code_simp
  from weekday_stage_offset [OF m, of clock0 st0] obtain w tw n where
    r: "group ?m 2 = Some w" "tw = indexOf weekdays w"
      "n = tw - getDay (tza clock0) (now clock0) +
         (if tw - getDay (tza clock0) (now clock0) \<le> 0 \<or> group ?m 1 \<noteq> None then 7 else 0)"
      "targetDate (stageWeekday clock0 ''next friday'' st0) = now clock0 + n * msPerDay"
      "getDay (tza clock0) (targetDate (stageWeekday clock0 ''next friday'' st0)) = tw"
    by blast
  from r(1) g(1) have "w = ''friday''" by simp
  with r(2) i have tw: "tw = 5" by simp
  with r(3) cw g(2) have "n = 11" by simp
  with r(4) r(5) tw m cw show ?thesis by simp
qed

section \<open>The 12-hour time\<close>

lemma digitVal_nonneg: "isDigit c \<Longrightarrow> 0 \<le> digitVal c"
  by (simp add: isDigit_def digitVal_def)

lemma foldl_digits_nonneg:
  "\<forall>c\<in>set xs. isDigit c \<Longrightarrow> 0 \<le> n \<Longrightarrow> 0 \<le> foldl (\<lambda>n c. 10 * n + digitVal c) n xs"
  by (induction xs arbitrary: n) (auto simp: digitVal_nonneg)

lemma parseInt_nonneg: "0 \<le> parseInt s"
  unfolding parseInt_def
  by (rule foldl_digits_nonneg) (auto dest: set_takeWhileD)

lemma stageTime24_after_time12:
  "match text time12Re = Some m \<Longrightarrow> stageTime24 text st = st"
  by (simp add: stageTime24_def split: option.splits)

lemma hours12_pm: "13 \<le> h \<Longrightarrow> hours12 ''pm'' h = h + 12"
  by (simp add: hours12_def)

text \<open>
  C10: a 12-hour match with the suffix \<open>pm\<close> and an hour of 13 or more is accepted:
  the stage sets the hour to the hour plus 12 and adds the match to the matched text,
  \<open>extractDateTime\<close> returns a result, and setting the hours moves the returned
  datetime to a later day than the working date.
\<close>

theorem time12_no_range_check:
  assumes m: "match text time12Re = Some m"
    and pm: "toLowerCase (grp m 3) = ''pm''"
    and h: "13 \<le> parseInt (grp m 1)"
  shows "targetTime (stages clk text) =
           Some (parseInt (grp m 1) + 12,
                 if truthy (group m 2) then parseInt (grp m 2) else 0) \<and>
         (\<exists>pre. matchedText (stages clk text) = pre @ '' '' @ whole m) \<and>
         extractDateTime clk text =
           Some \<lparr>dt_raw = trim (matchedText (stages clk text)),
                 dt_datetime = toISOString (finalDate clk (stages clk text))\<rparr> \<and>
         finalDate clk (stages clk text) =
           setHours (tza clk) (targetDate (stages clk text)) (parseInt (grp m 1) + 12)
             (if truthy (group m 2) then parseInt (grp m 2) else 0) 0 0 \<and>
         Day (targetDate (stages clk text) + tza clk) <
           Day (finalDate clk (stages clk text) + tza clk)"
proof -
  let ?mins = "if truthy (group m 2) then parseInt (grp m 2) else 0"
  let ?h = "parseInt (grp m 1)"
  obtain st where st: "stages clk text = stageTime24 text (stageTime12 text st)"
    by (simp add: stages_def Let_def)
  have s12: "stages clk text = stageTime12 text st"
    using st m by (simp add: stageTime24_after_time12)
  have tt: "targetTime (stages clk text) = Some (?h + 12, ?mins)"
    using m pm h by (simp add: s12 stageTime12_def Let_def hours12_pm)
  have mt: "matchedText (stages clk text) = matchedText st @ '' '' @ whole m"
    using m by (simp add: s12 stageTime12_def Let_def)
  have fd: "finalDate clk (stages clk text) =
      setHours (tza clk) (targetDate (stages clk text)) (?h + 12) ?mins 0 0"
    by (simp add: finalDate_def tt)
  have "0 \<le> ?mins" by (simp add: parseInt_nonneg)
  with h have "1 \<le> ((?h + 12) * 60 + ?mins) div 1440"
    by (simp add: pos_imp_zdiv_pos_iff)
  then have day: "Day (targetDate (stages clk text) + tza clk) <
      Day (finalDate clk (stages clk text) + tza clk)"
    by (simp add: fd Day_setHours)
  show ?thesis
    using tt mt fd day by (simp add: extractDateTime_def Let_def)
qed

theorem time12_no_range_check_witness:
  "match ''call 19pm'' time12Re = Some \<lparr>whole = ''19pm'', groups = [(3, ''pm''), (1, ''19'')]\<rparr> \<and>
   targetTime (stages clock0 ''call 19pm'') = Some (31, 0) \<and>
   Day (targetDate (stages clock0 ''call 19pm'') + tza clock0) <
     Day (finalDate clock0 (stages clock0 ''call 19pm'') + tza clock0) \<and>
   extractDateTime clock0 ''call 19pm'' \<noteq> None"
proof -
  let ?m = "\<lparr>whole = ''19pm'', groups = [(3, ''pm''), (1, ''19'')]\<rparr>"
  have m: "match ''call 19pm'' time12Re = Some ?m" by code_simp
  have pm: "toLowerCase (grp ?m 3) = ''pm''" by code_simp
  have h: "parseInt (grp ?m 1) = 19" by code_simp
  have g: "truthy (group ?m 2) = False" by code_simp
  have h13: "13 \<le> parseInt (grp ?m 1)" using h by simp
  note r = time12_no_range_check [OF m pm h13, of clock0]
  from r have 1: "targetTime (stages clock0 ''call 19pm'') = Some (31, 0)"
    using h g by simp
  from r have 2: "Day (targetDate (stages clock0 ''call 19pm'') + tza clock0) <
     Day (finalDate clock0 (stages clock0 ''call 19pm'') + tza clock0)"
    by blast
  from r have 3: "extractDateTime clock0 ''call 19pm'' \<noteq> None"
    by simp
  from m 1 2 3 show ?thesis by simp
qed

section \<open>The phone\<close>

lemma isDigit_not_punct:
  "isDigit c \<Longrightarrow> c \<noteq> CHR ''('' \<and> c \<noteq> CHR '')'' \<and> c \<noteq> CHR ''-'' \<and> c \<noteq> CHR ''.'' \<and>
     CHR ''('' \<noteq> c \<and> CHR '')'' \<noteq> c \<and> CHR ''-'' \<noteq> c \<and> CHR ''.'' \<noteq> c \<and> \<not> isSpace c \<and> \<not> isSep c"
  by (auto simp: isDigit_def isSpace_def isSep_def)

lemma not_isDigit_hyphen: "\<not> isDigit CHR ''-''"
  by (simp add: isDigit_def)

lemma isSep_hyphen: "isSep CHR ''-''"
  by (simp add: isSep_def)

lemma ten_digits:
  assumes "length ds = 10"
  obtains d1 d2 d3 d4 d5 d6 d7 d8 d9 d10 :: char
  where "ds = [d1, d2, d3, d4, d5, d6, d7, d8, d9, d10]"
  using assms by (auto simp: eval_nat_numeral length_Suc_conv)

lemma phone_formatted_matches:
  assumes "isDigit d1" "isDigit d2" "isDigit d3" "isDigit d4" "isDigit d5"
    "isDigit d6" "isDigit d7" "isDigit d8" "isDigit d9" "isDigit d10"
  shows "ms phoneRe1 [d1, d2, d3, CHR ''-'', d4, d5, d6, CHR ''-'', d7, d8, d9, d10]
            \<lparr>endIndex = 0, caps = []\<rparr> = [\<lparr>endIndex = 12, caps = []\<rparr>]"
  using assms
  by (simp add: phoneRe1_def Opt_def Rep_def eval_nat_numeral isDigit_not_punct not_isDigit_hyphen isSep_hyphen)

lemma extractPhone_formatted:
  assumes "length ds = 10" and "\<forall>c\<in>set ds. isDigit c"
  shows "extractPhone (formatDigits ds) =
     Some \<lparr>raw = formatDigits ds, formatted = formatDigits ds\<rparr>"
proof -
  from assms(1) obtain d1 d2 d3 d4 d5 d6 d7 d8 d9 d10
    where ds: "ds = [d1, d2, d3, d4, d5, d6, d7, d8, d9, d10]"
    by (rule ten_digits)
  let ?text = "[d1, d2, d3, CHR ''-'', d4, d5, d6, CHR ''-'', d7, d8, d9, d10]"
  have dig: "isDigit d1" "isDigit d2" "isDigit d3" "isDigit d4" "isDigit d5"
    "isDigit d6" "isDigit d7" "isDigit d8" "isDigit d9" "isDigit d10"
    using assms(2) by (simp_all add: ds)
  have fmt: "formatDigits ds = ?text"
    by (simp add: formatDigits_def ds)
  have "[0..<Suc (length ?text)] = 0 # [1..<Suc (length ?text)]"
    by (simp add: upt_rec)
  then have m: "match ?text phoneRe1 = Some \<lparr>whole = ?text, groups = []\<rparr>"
    by (simp add: match_def phone_formatted_matches [OF dig] substr_def)
  have f: "filter isDigit ?text = ds"
    using dig by (simp add: ds not_isDigit_hyphen)
  show ?thesis
    unfolding fmt extractPhone_def using m f assms(1) fmt by (simp add: Let_def)
qed

lemma tryPatterns_ten_digits:
  "tryPatterns ps text = Some r \<Longrightarrow>
   length (filter isDigit (raw r)) = 10 \<and> formatted r = formatDigits (filter isDigit (raw r))"
  by (induction ps) (auto simp: Let_def split: option.splits if_splits)

text \<open>
  C9: a string of ten digits, formatted as \<open>ddd-ddd-dddd\<close>, is extracted as it is,
  both as the raw match and as the formatted phone. A match whose digits are not ten
  in number is rejected: the loop goes on with the next pattern, and returns no phone
  when the patterns are used up. Whatever \<open>extractPhone\<close> returns has ten digits.
\<close>

theorem phone_round_trip:
  "(length ds = 10 \<and> (\<forall>c\<in>set ds. isDigit c) \<longrightarrow>
      extractPhone (formatDigits ds) =
        Some \<lparr>raw = formatDigits ds, formatted = formatDigits ds\<rparr>) \<and>
   (match text p = Some m \<and> length (filter isDigit (whole m)) \<noteq> 10 \<longrightarrow>
      tryPatterns (p # ps) text = tryPatterns ps text) \<and>
   tryPatterns [] text = None \<and>
   (extractPhone text = Some r \<longrightarrow>
      length (filter isDigit (raw r)) = 10 \<and>
      formatted r = formatDigits (filter isDigit (raw r)))"
  using extractPhone_formatted [of ds] tryPatterns_ten_digits [of "[phoneRe1, phoneRe2]" "text" r]
  by (auto simp: extractPhone_def Let_def)

theorem phone_round_trip_witness:
  "length ''7205551212'' = 10 \<and> list_all isDigit ''7205551212'' \<and>
   formatDigits ''7205551212'' = ''720-555-1212'' \<and>
   extractPhone ''720-555-1212'' =
     Some \<lparr>raw = ''720-555-1212'', formatted = ''720-555-1212''\<rparr> \<and>
   match ''12345'' (Rep 3 3 (Cls isDigit)) = Some \<lparr>whole = ''123'', groups = []\<rparr> \<and>
   tryPatterns [Rep 3 3 (Cls isDigit)] ''12345'' = None \<and>
   extractPhone ''call 720.555.1212'' =
     Some \<lparr>raw = ''720.555.1212'', formatted = ''720-555-1212''\<rparr>"
proof -
  have a: "length ''7205551212'' = 10" "\<forall>c\<in>set ''7205551212''. isDigit c"
    "list_all isDigit ''7205551212''"
    by (simp_all add: isDigit_def)
  have f: "formatDigits ''7205551212'' = ''720-555-1212''" by code_simp
  have m: "match ''12345'' (Rep 3 3 (Cls isDigit)) = Some \<lparr>whole = ''123'', groups = []\<rparr>"
    by code_simp
  have n: "length (filter isDigit (whole \<lparr>whole = ''123'', groups = []\<rparr>)) \<noteq> 10"
    by code_simp
  have e: "extractPhone ''call 720.555.1212'' =
     Some \<lparr>raw = ''720.555.1212'', formatted = ''720-555-1212''\<rparr>"
    by code_simp
  note r = phone_round_trip [of "''7205551212''" "''12345''" "Rep 3 3 (Cls isDigit)"
      "\<lparr>whole = ''123'', groups = []\<rparr>" "[]"
      "\<lparr>raw = ''720.555.1212'', formatted = ''720-555-1212''\<rparr>"]
  from r a f have 1: "extractPhone ''720-555-1212'' =
     Some \<lparr>raw = ''720-555-1212'', formatted = ''720-555-1212''\<rparr>"
    by simp
  from r m n have 2: "tryPatterns [Rep 3 3 (Cls isDigit)] ''12345'' = None"
    by simp
  from a f 1 m 2 e show ?thesis by simp
qed

section \<open>The name\<close>

lemma at_at [simp]: "at (at s i) j = at s j"
  by (simp add: at_def)

lemma at_self [simp]: "at s (endIndex s) = s"
  by (simp add: at_def)

lemma endIndex_at [simp]: "endIndex (at s j) = j"
  by (simp add: at_def)

lemma caps_at [simp]: "caps (at s j) = caps s"
  by (simp add: at_def)

lemma ms_Cls:
  "ms (Cls p) inp s =
     (if endIndex s < length inp \<and> p (inp ! endIndex s) then [at s (Suc (endIndex s))] else [])"
  by (simp add: at_def)

lemma run_step:
  "e < length inp \<Longrightarrow> p (inp ! e) \<Longrightarrow>
   length (takeWhile p (drop e inp)) = Suc (length (takeWhile p (drop (Suc e) inp)))"
  by (simp add: Cons_nth_drop_Suc [symmetric])

lemma run_stop:
  "\<not> (e < length inp \<and> p (inp ! e)) \<Longrightarrow> takeWhile p (drop e inp) = []"
  by (cases "e < length inp") (simp_all add: Cons_nth_drop_Suc [symmetric])

lemma ms_Star_Cls:
  "ms (Star (Cls p)) inp s =
     map (at s) (rev [endIndex s ..< Suc (endIndex s + length (takeWhile p (drop (endIndex s) inp)))])"
proof (induction "length inp - endIndex s" arbitrary: s rule: less_induct)
  case less
  let ?e = "endIndex s"
  show ?case
  proof (cases "?e < length inp \<and> p (inp ! ?e)")
    case True
    let ?s1 = "at s (Suc ?e)"
    let ?k' = "length (takeWhile p (drop (Suc ?e) inp))"
    have "length inp - Suc ?e < length inp - ?e"
      using True by linarith
    then have IH: "ms (Star (Cls p)) inp ?s1 = map (at s) (rev [Suc ?e ..< Suc (Suc ?e + ?k')])"
      using less [of ?s1] by simp
    have k: "length (takeWhile p (drop ?e inp)) = Suc ?k'"
      using True by (simp add: run_step)
    have "ms (Star (Cls p)) inp s = ms (Star (Cls p)) inp ?s1 @ [s]"
      using True by (subst ms.simps(5)) (simp add: at_def)
    also have "\<dots> = map (at s) (rev [Suc ?e ..< Suc (Suc ?e + ?k')]) @ [at s ?e]"
      by (simp add: IH)
    also have "\<dots> = map (at s) (rev (?e # [Suc ?e ..< Suc (?e + Suc ?k')]))"
      by simp
    also have "?e # [Suc ?e ..< Suc (?e + Suc ?k')] = [?e ..< Suc (?e + Suc ?k')]"
      by (rule upt_conv_Cons [symmetric]) simp
    finally show ?thesis by (simp only: k)
  next
    case False
    then have "ms (Star (Cls p)) inp s = [s]"
      by (subst ms.simps(5)) auto
    moreover have "takeWhile p (drop ?e inp) = []"
      using False by (rule run_stop)
    ultimately show ?thesis by simp
  qed
qed

lemma ms_Plus_Cls:
  "ms (Plus (Cls p)) inp s =
     map (at s) (rev [Suc (endIndex s) ..< Suc (endIndex s + length (takeWhile p (drop (endIndex s) inp)))])"
proof (cases "endIndex s < length inp \<and> p (inp ! endIndex s)")
  case True
  then show ?thesis
    by (simp add: Plus_def ms_Cls ms_Star_Cls run_step)
next
  case False
  then have "takeWhile p (drop (endIndex s) inp) = []" by (rule run_stop)
  moreover from False have "ms (Cls p) inp s = []" by (auto simp: ms_Cls)
  ultimately show ?thesis by (simp add: Plus_def)
qed

lemma at_at_fun [simp]: "at (at s i) = at s"
  by (rule ext) simp

lemma leadWord_drop:
  "leadWord (drop e inp) =
     (if e < length inp \<and> isUpper (inp ! e) \<and> takeWhile isLower (drop (Suc e) inp) \<noteq> []
      then Some (inp ! e # takeWhile isLower (drop (Suc e) inp)) else None)"
  by (cases "e < length inp") (simp_all add: leadWord_def Cons_nth_drop_Suc [symmetric])

lemma leadWord_prefix: "leadWord s = Some w \<Longrightarrow> prefix w s \<and> 2 \<le> length w"
proof (cases s)
  case Nil
  then show "leadWord s = Some w \<Longrightarrow> ?thesis" by (simp add: leadWord_def)
next
  case (Cons c cs)
  assume "leadWord s = Some w"
  with Cons have w: "w = c # takeWhile isLower cs" and ne: "takeWhile isLower cs \<noteq> []"
    by (auto simp: leadWord_def split: if_splits)
  have "cs = takeWhile isLower cs @ dropWhile isLower cs" by simp
  then have "prefix (takeWhile isLower cs) cs" by (metis prefixI)
  moreover from ne have "1 \<le> length (takeWhile isLower cs)"
    by (simp add: Suc_le_eq)
  ultimately show ?thesis using Cons w by simp
qed

lemma ms_capWord:
  "ms capWord inp s =
     (case leadWord (drop (endIndex s) inp) of
        None \<Rightarrow> []
      | Some w \<Rightarrow> map (at s) (rev [Suc (Suc (endIndex s)) ..< Suc (endIndex s + length w)]))"
proof (cases "endIndex s < length inp \<and> isUpper (inp ! endIndex s)")
  case False
  then have "ms (Cls isUpper) inp s = []" by auto
  then have "ms capWord inp s = []" by (simp add: capWord_def del: ms.simps(1))
  moreover have "leadWord (drop (endIndex s) inp) = None"
    using False by (auto simp: leadWord_drop)
  ultimately show ?thesis by simp
next
  case True
  let ?e = "endIndex s"
  let ?kl = "length (takeWhile isLower (drop (Suc ?e) inp))"
  have "ms (Cls isUpper) inp s = [at s (Suc ?e)]"
    using True by (simp add: at_def)
  then have "ms capWord inp s = ms (Plus (Cls isLower)) inp (at s (Suc ?e))"
    by (simp add: capWord_def del: ms.simps(1))
  also have "\<dots> = map (at s) (rev [Suc (Suc ?e) ..< Suc (Suc ?e + ?kl)])"
    by (simp only: ms_Plus_Cls endIndex_at at_at_fun)
  finally have m: "ms capWord inp s = map (at s) (rev [Suc (Suc ?e) ..< Suc (Suc ?e + ?kl)])" .
  show ?thesis
  proof (cases "takeWhile isLower (drop (Suc ?e) inp) = []")
    case True
    then have "leadWord (drop ?e inp) = None" by (simp add: leadWord_drop)
    moreover from True have "ms capWord inp s = []" by (simp add: m)
    ultimately show ?thesis by simp
  next
    case False
    with True have lw: "leadWord (drop ?e inp) = Some (inp ! ?e # takeWhile isLower (drop (Suc ?e) inp))"
      by (simp add: leadWord_drop)
    have "Suc (Suc ?e + ?kl) = Suc (?e + length (inp ! ?e # takeWhile isLower (drop (Suc ?e) inp)))"
      by simp
    then show ?thesis by (simp only: m lw option.case)
  qed
qed

lemma in_run:
  assumes "e \<le> j" and "j < e + length (takeWhile p (drop e inp))"
  shows "j < length inp \<and> p (inp ! j)"
proof -
  let ?xs = "drop e inp"
  from assms have i: "j - e < length (takeWhile p ?xs)" by linarith
  have le: "length (takeWhile p ?xs) \<le> length ?xs" by (rule length_takeWhile_le)
  with i have lt: "j - e < length ?xs" by linarith
  then have j: "j < length inp" using assms(1) by simp
  from i have "takeWhile p ?xs ! (j - e) \<in> set (takeWhile p ?xs)" by (rule nth_mem)
  then have "p (takeWhile p ?xs ! (j - e))" by (rule set_takeWhileD [THEN conjunct2])
  moreover have "takeWhile p ?xs ! (j - e) = ?xs ! (j - e)" using i by (rule takeWhile_nth)
  moreover have "?xs ! (j - e) = inp ! j" using assms(1) j by simp
  ultimately show ?thesis using j by simp
qed

lemma isSpace_not_isUpper: "isSpace c \<Longrightarrow> \<not> isUpper c"
  by (auto simp: isSpace_def isUpper_def)

lemma ms_capWord_at_space:
  "j < length inp \<Longrightarrow> isSpace (inp ! j) \<Longrightarrow> ms capWord inp (at s j) = []"
  by (simp add: ms_capWord leadWord_drop isSpace_not_isUpper)

lemma ms_iter:
  "ms (Seq (Plus (Cls isSpace)) capWord) inp s =
     (if spaces (drop (endIndex s) inp) = 0 then []
      else ms capWord inp (at s (endIndex s + spaces (drop (endIndex s) inp))))"
proof -
  let ?e = "endIndex s"
  let ?k = "spaces (drop ?e inp)"
  have u: "ms (Seq (Plus (Cls isSpace)) capWord) inp s =
      concat (map (ms capWord inp) (map (at s) (rev [Suc ?e ..< Suc (?e + ?k)])))"
    by (simp only: ms.simps(3) ms_Plus_Cls spaces_def)
  show ?thesis
  proof (cases "?k = 0")
    case True
    then show ?thesis by (simp only: u) simp
  next
    case False
    then have "[Suc ?e ..< Suc (?e + ?k)] = [Suc ?e ..< ?e + ?k] @ [?e + ?k]"
      by (intro upt_Suc_append) simp
    then have r: "rev [Suc ?e ..< Suc (?e + ?k)] = (?e + ?k) # rev [Suc ?e ..< ?e + ?k]"
      by simp
    have "\<forall>j\<in>set (rev [Suc ?e ..< ?e + ?k]). ms capWord inp (at s j) = []"
    proof
      fix j assume "j \<in> set (rev [Suc ?e ..< ?e + ?k])"
      then have "?e \<le> j" "j < ?e + length (takeWhile isSpace (drop ?e inp))"
        by (simp_all add: spaces_def)
      then have "j < length inp \<and> isSpace (inp ! j)" by (rule in_run)
      then show "ms capWord inp (at s j) = []" by (simp add: ms_capWord_at_space)
    qed
    then have "concat (map (ms capWord inp) (map (at s) (rev [Suc ?e ..< ?e + ?k]))) = []"
      by (simp add: o_def)
    with False show ?thesis by (simp only: u r) simp
  qed
qed

declare nameRun.simps [simp del]

lemma spaces_le: "spaces xs \<le> length xs"
  unfolding spaces_def by (rule length_takeWhile_le)

lemma nameRun_stop:
  "spaces xs = 0 \<or> leadWord (drop (spaces xs) xs) = None \<Longrightarrow> nameRun spaces xs = []"
  by (subst nameRun.simps) (auto simp: Let_def)

lemma nameRun_step:
  "spaces xs \<noteq> 0 \<Longrightarrow> leadWord (drop (spaces xs) xs) = Some w \<Longrightarrow>
   nameRun spaces xs = take (spaces xs) xs @ w @ nameRun spaces (drop (spaces xs + length w) xs)"
  using spaces_le [of xs] by (subst nameRun.simps) (simp add: Let_def)

lemma rev_upt_head:
  "i \<le> j \<Longrightarrow> \<exists>rest. map f (rev [i ..< Suc j]) = f j # rest"
  by simp

lemma ms_Star_iter_head:
  "endIndex s \<le> length inp \<Longrightarrow>
   \<exists>rest. ms (Star (Seq (Plus (Cls isSpace)) capWord)) inp s =
     at s (endIndex s + length (nameRun spaces (drop (endIndex s) inp))) # rest"
proof (induction "length inp - endIndex s" arbitrary: s rule: less_induct)
  case less
  let ?it = "Seq (Plus (Cls isSpace)) capWord"
  let ?e = "endIndex s"
  let ?xs = "drop ?e inp"
  let ?k = "spaces ?xs"
  have dd: "drop ?k ?xs = drop (?e + ?k) inp" by (simp add: add.commute)
  show ?case
  proof (cases "?k = 0 \<or> leadWord (drop ?k ?xs) = None")
    case True
    then have "ms ?it inp s = []"
      by (auto simp only: ms_iter dd ms_capWord endIndex_at option.case split: if_splits)
    then have "ms (Star ?it) inp s = [s]"
      by (subst ms.simps(5)) (simp only:, simp)
    moreover from True have "nameRun spaces ?xs = []" by (rule nameRun_stop)
    ultimately show ?thesis by simp
  next
    case False
    then obtain w where k: "?k \<noteq> 0" and w: "leadWord (drop ?k ?xs) = Some w" by auto
    from leadWord_prefix [OF w] have pw: "prefix w (drop (?e + ?k) inp)" and lw: "2 \<le> length w"
      unfolding dd by blast+
    let ?e1 = "?e + ?k + length w"
    let ?s1 = "at s ?e1"
    from pw have "length w \<le> length (drop (?e + ?k) inp)" by (rule prefix_length_le)
    with lw have e1: "?e1 \<le> length inp" by simp
    have "ms ?it inp s = map (at s) (rev [Suc (Suc (?e + ?k)) ..< Suc ?e1])"
      using k w by (simp only: ms_iter ms_capWord endIndex_at at_at_fun dd [symmetric]) simp
    moreover have "\<exists>rest. map (at s) (rev [Suc (Suc (?e + ?k)) ..< Suc ?e1]) = at s ?e1 # rest"
      using lw by (intro rev_upt_head) simp
    ultimately obtain rest1 where it: "ms ?it inp s = ?s1 # rest1" by auto
    have "length inp - endIndex ?s1 < length inp - ?e"
      using e1 k by simp
    moreover have "endIndex ?s1 \<le> length inp" using e1 by simp
    ultimately obtain rest' where
      IH: "ms (Star ?it) inp ?s1 = at s (?e1 + length (nameRun spaces (drop ?e1 inp))) # rest'"
      using less.hyps [of ?s1] by auto
    have "ms (Star ?it) inp s =
        ms (Star ?it) inp ?s1 @
        concat (map (\<lambda>s'. if ?e < endIndex s' \<and> endIndex s' \<le> length inp
                          then ms (Star ?it) inp s' else []) rest1) @ [s]"
      using e1 k by (subst ms.simps(5)) (simp only: it, simp)
    then obtain rest where
      h: "ms (Star ?it) inp s = at s (?e1 + length (nameRun spaces (drop ?e1 inp))) # rest"
      by (simp add: IH)
    have "nameRun spaces ?xs = take ?k ?xs @ w @ nameRun spaces (drop (?k + length w) ?xs)"
      using k w by (rule nameRun_step)
    moreover have "drop (?k + length w) ?xs = drop ?e1 inp" by (simp add: add.commute add.left_commute)
    moreover have "length (take ?k ?xs) = ?k" using spaces_le [of ?xs] by simp
    ultimately have "length (nameRun spaces ?xs) = ?k + length w + length (nameRun spaces (drop ?e1 inp))"
      by simp
    then have "?e + length (nameRun spaces ?xs) = ?e1 + length (nameRun spaces (drop ?e1 inp))"
      by simp
    with h show ?thesis by simp
  qed
qed

lemma ms_body:
  assumes "endIndex s \<le> length inp"
  shows "case leadWord (drop (endIndex s) inp) of
           None \<Rightarrow> ms (Seq capWord (Star (Seq (Plus (Cls isSpace)) capWord))) inp s = []
         | Some w \<Rightarrow>
             \<exists>rest. ms (Seq capWord (Star (Seq (Plus (Cls isSpace)) capWord))) inp s =
               at s (endIndex s + length (w @ nameRun spaces (drop (endIndex s + length w) inp))) # rest"
proof (cases "leadWord (drop (endIndex s) inp)")
  case None
  then have "ms capWord inp s = []" by (simp add: ms_capWord)
  then have "ms (Seq capWord (Star (Seq (Plus (Cls isSpace)) capWord))) inp s = []"
    by (simp only: ms.simps(3)) simp
  with None show ?thesis by simp
next
  case (Some w)
  let ?e = "endIndex s"
  let ?st = "Star (Seq (Plus (Cls isSpace)) capWord)"
  let ?e1 = "?e + length w"
  from leadWord_prefix [OF Some] have pw: "prefix w (drop ?e inp)" and lw: "2 \<le> length w"
    by blast+
  from pw have "length w \<le> length (drop ?e inp)" by (rule prefix_length_le)
  with lw have e1: "?e1 \<le> length inp" by simp
  have "ms capWord inp s = map (at s) (rev [Suc (Suc ?e) ..< Suc ?e1])"
    by (simp add: ms_capWord Some)
  moreover have "\<exists>rest. map (at s) (rev [Suc (Suc ?e) ..< Suc ?e1]) = at s ?e1 # rest"
    using lw by (intro rev_upt_head) simp
  ultimately obtain rest1 where cw: "ms capWord inp s = at s ?e1 # rest1" by auto
  from e1 have "endIndex (at s ?e1) \<le> length inp" by simp
  from ms_Star_iter_head [OF this] obtain rest' where
    h: "ms ?st inp (at s ?e1) = at s (?e1 + length (nameRun spaces (drop ?e1 inp))) # rest'"
    by auto
  have "ms (Seq capWord ?st) inp s =
      at s (?e1 + length (nameRun spaces (drop ?e1 inp))) # rest' @ concat (map (ms ?st inp) rest1)"
    by (simp only: ms.simps(3) cw) (simp add: h)
  then have "\<exists>rest. ms (Seq capWord ?st) inp s =
      at s (?e + length (w @ nameRun spaces (drop ?e1 inp))) # rest"
    by (simp add: add.assoc)
  with Some show ?thesis by simp
qed

lemma nameRun_prefix: "prefix (nameRun sep s) s"
proof (induction sep s rule: nameRun.induct)
  case (1 sep s)
  let ?k = "sep s"
  show ?case
  proof (cases "?k = 0 \<or> length s < ?k")
    case True
    then show ?thesis by (subst nameRun.simps) (auto simp: Let_def)
  next
    case False
    show ?thesis
    proof (cases "leadWord (drop ?k s)")
      case None
      with False show ?thesis by (subst nameRun.simps) (simp add: Let_def)
    next
      case (Some w)
      from leadWord_prefix [OF Some] obtain zs where zs: "drop ?k s = w @ zs"
        by (auto simp: prefix_def)
      then have d: "drop (?k + length w) s = zs"
        by (metis append_eq_conv_conj drop_drop add.commute)
      from "1.IH" [OF refl _ Some] False have "prefix (nameRun sep (drop (?k + length w) s)) zs"
        by (simp add: d)
      then have "prefix (take ?k s @ w @ nameRun sep (drop (?k + length w) s)) (take ?k s @ w @ zs)"
        by simp
      moreover have "take ?k s @ w @ zs = s"
        using zs by (metis append_take_drop_id)
      moreover have "nameRun sep s = take ?k s @ w @ nameRun sep (drop (?k + length w) s)"
        using False Some by (subst nameRun.simps) (simp add: Let_def)
      ultimately show ?thesis by simp
    qed
  qed
qed

lemma longestRun_prefix: "longestRun sep text = Some n \<Longrightarrow> prefix n text"
proof -
  assume a: "longestRun sep text = Some n"
  then obtain w where w: "leadWord text = Some w"
    and n: "n = w @ nameRun sep (drop (length w) text)"
    by (auto simp: longestRun_def split: option.splits)
  from leadWord_prefix [OF w] obtain zs where zs: "text = w @ zs"
    by (auto simp: prefix_def)
  then have "drop (length w) text = zs" by simp
  with nameRun_prefix [of sep zs] n zs show ?thesis by simp
qed

lemma ms_nameRe_later: "0 < endIndex s \<Longrightarrow> ms nameRe inp s = []"
  by (simp add: nameRe_def)

lemma searchFrom_nameRe_later:
  "\<forall>i\<in>set is. 0 < i \<Longrightarrow> searchFrom nameRe inp is = None"
  by (induction "is") (simp_all add: ms_nameRe_later)

lemma ms_nameRe_start:
  "ms nameRe inp \<lparr>endIndex = 0, caps = []\<rparr> =
     map (\<lambda>s'. s'\<lparr>caps := (1, substr inp 0 (endIndex s')) # caps s'\<rparr>)
       (ms (Seq capWord (Star (Seq (Plus (Cls isSpace)) capWord))) inp \<lparr>endIndex = 0, caps = []\<rparr>)"
  by (simp only: nameRe_def ms.simps(3) ms.simps(6) ms.simps(7)) simp

lemma match_nameRe:
  "match text nameRe =
     (case longestRun spaces text of
        None \<Rightarrow> None
      | Some n \<Rightarrow> Some \<lparr>whole = n, groups = [(1, n)]\<rparr>)"
proof -
  let ?s0 = "\<lparr>endIndex = 0, caps = []\<rparr>"
  let ?body = "Seq capWord (Star (Seq (Plus (Cls isSpace)) capWord))"
  have upt: "[0 ..< Suc (length text)] = 0 # [Suc 0 ..< Suc (length text)]"
    by (rule upt_conv_Cons) simp
  have later: "searchFrom nameRe text [Suc 0 ..< Suc (length text)] = None"
    by (rule searchFrom_nameRe_later) auto
  have b: "case leadWord (drop (endIndex ?s0) text) of
           None \<Rightarrow> ms ?body text ?s0 = []
         | Some w \<Rightarrow>
             \<exists>rest. ms ?body text ?s0 =
               at ?s0 (endIndex ?s0 + length (w @ nameRun spaces (drop (endIndex ?s0 + length w) text))) # rest"
    by (rule ms_body) simp
  show ?thesis
  proof (cases "leadWord text")
    case None
    with b have "ms ?body text ?s0 = []" by simp
    then have "ms nameRe text ?s0 = []" by (simp only: ms_nameRe_start) simp
    then have "match text nameRe = None"
      by (simp only: match_def upt searchFrom.simps later) simp
    with None show ?thesis by (simp add: longestRun_def)
  next
    case (Some w)
    let ?n = "w @ nameRun spaces (drop (length w) text)"
    from Some have lr: "longestRun spaces text = Some ?n" by (simp add: longestRun_def)
    from b Some obtain rest where "ms ?body text ?s0 = at ?s0 (length ?n) # rest"
      by auto
    then have "ms nameRe text ?s0 =
        \<lparr>endIndex = length ?n, caps = [(1, substr text 0 (length ?n))]\<rparr> #
        map (\<lambda>s'. s'\<lparr>caps := (1, substr text 0 (endIndex s')) # caps s'\<rparr>) rest"
      by (simp only: ms_nameRe_start) (simp add: at_def)
    then have m: "match text nameRe =
        Some \<lparr>whole = substr text 0 (length ?n), groups = [(1, substr text 0 (length ?n))]\<rparr>"
      by (simp only: match_def upt searchFrom.simps) simp
    from longestRun_prefix [OF lr] have "substr text 0 (length ?n) = ?n"
      using substr_prefix [of ?n 0 "text"] by simp
    with m lr show ?thesis by simp
  qed
qed

lemma extractName_longestRun: "extractName text = longestRun spaces text"
  by (simp add: extractName_def match_nameRe group_def split: option.splits)

lemma leadWord_Some_iff:
  "leadWord text \<noteq> None \<longleftrightarrow> (\<exists>c d rest. text = c # d # rest \<and> isUpper c \<and> isLower d)"
proof (cases "text")
  case Nil
  then show ?thesis by (simp add: leadWord_def)
next
  case (Cons c cs)
  have "takeWhile isLower cs \<noteq> [] \<longleftrightarrow> (\<exists>d rest. cs = d # rest \<and> isLower d)"
    by (cases cs) auto
  with Cons show ?thesis by (auto simp: leadWord_def)
qed

lemma isSpace_not_isLower: "isSpace c \<Longrightarrow> \<not> isLower c"
  by (auto simp: isSpace_def isLower_def)

lemma isUpper_not_isSpace: "isUpper c \<Longrightarrow> \<not> isSpace c"
  by (auto simp: isSpace_def isUpper_def)

lemma leadWord_capitalised: "leadWord s = Some w \<Longrightarrow> capitalised w"
  by (cases s) (auto simp: leadWord_def capitalised_def list_all_iff split: if_splits
      dest: set_takeWhileD)

lemma wordRun_starts_upper: "wordRun r \<Longrightarrow> \<exists>c rest. r = c # rest \<and> isUpper c"
  by (induction rule: wordRun.induct) (auto simp: capitalised_def split: list.splits)

lemma takeWhile_all: "list_all P xs \<Longrightarrow> takeWhile P (xs @ ys) = xs @ takeWhile P ys"
  by (simp add: list_all_iff takeWhile_append2)

lemma takeWhile_stop: "list_all P xs \<Longrightarrow> \<not> P y \<Longrightarrow> takeWhile P (xs @ y # ys) = xs"
  by (simp add: takeWhile_all)

lemma leadWord_of_word_prefix:
  assumes "capitalised w"
  shows "\<exists>w'. leadWord (w @ rest) = Some w' \<and> prefix w w'"
proof -
  from assms obtain c ls where w: "w = c # ls" and c: "isUpper c" and ls: "ls \<noteq> []" "list_all isLower ls"
    by (auto simp: capitalised_def split: list.splits)
  have t: "takeWhile isLower (ls @ rest) = ls @ takeWhile isLower rest"
    using ls(2) by (rule takeWhile_all)
  with c ls(1) have "leadWord (w @ rest) = Some (c # ls @ takeWhile isLower rest)"
    by (simp add: w leadWord_def)
  then show ?thesis by (simp add: w)
qed

lemma leadWord_of_word_space:
  assumes "capitalised w" and "isSpace y"
  shows "leadWord (w @ y # rest) = Some w"
proof -
  from assms obtain c ls where w: "w = c # ls" and c: "isUpper c" and ls: "ls \<noteq> []" "list_all isLower ls"
    by (auto simp: capitalised_def split: list.splits)
  have "takeWhile isLower (ls @ y # rest) = ls"
    using ls(2) assms(2) by (intro takeWhile_stop) (simp_all add: isSpace_not_isLower)
  with c ls(1) show ?thesis by (simp add: w leadWord_def)
qed

lemma spaces_of_sep:
  assumes "list_all isSpace sp" and "isUpper c"
  shows "spaces (sp @ c # rest) = length sp"
proof -
  have "takeWhile isSpace (sp @ c # rest) = sp"
    using assms by (intro takeWhile_stop) (simp_all add: isUpper_not_isSpace)
  then show ?thesis by (simp add: spaces_def)
qed

lemma wordRun_greedy: "capitalised w \<Longrightarrow> wordRun (w @ nameRun spaces s)"
proof (induction "length s" arbitrary: s w rule: less_induct)
  case less
  show ?case
  proof (cases "spaces s = 0 \<or> leadWord (drop (spaces s) s) = None")
    case True
    then have "nameRun spaces s = []" by (rule nameRun_stop)
    with less.prems show ?thesis by (simp add: wordRun.one)
  next
    case False
    then obtain w' where k: "spaces s \<noteq> 0" and w': "leadWord (drop (spaces s) s) = Some w'"
      by auto
    let ?sp = "take (spaces s) s"
    let ?s' = "drop (spaces s + length w') s"
    have run: "nameRun spaces s = ?sp @ w' @ nameRun spaces ?s'"
      using k w' by (rule nameRun_step)
    have "?sp = takeWhile isSpace s"
      unfolding spaces_def by (metis takeWhile_eq_take)
    then have sp: "list_all isSpace ?sp"
      by (simp add: list_all_iff) (metis set_takeWhileD)
    from k spaces_le [of s] have ne: "?sp \<noteq> []" by auto
    from k spaces_le [of s] have "length ?s' < length s" by simp
    moreover from w' have "capitalised w'" by (rule leadWord_capitalised)
    ultimately have "wordRun (w' @ nameRun spaces ?s')" by (rule less.hyps)
    with less.prems ne sp have "wordRun (w @ ?sp @ (w' @ nameRun spaces ?s'))"
      by (rule wordRun.more)
    then show ?thesis by (simp add: run)
  qed
qed

lemma wordRun_prefix_greedy:
  "wordRun p \<Longrightarrow> prefix p inp \<Longrightarrow>
   \<exists>w. leadWord inp = Some w \<and> prefix p (w @ nameRun spaces (drop (length w) inp))"
proof (induction arbitrary: inp rule: wordRun.induct)
  case (one w0)
  then obtain rest where t: "inp = w0 @ rest" by (auto simp: prefix_def)
  from leadWord_of_word_prefix [OF one(1), of rest] obtain w' where
    "leadWord (w0 @ rest) = Some w'" "prefix w0 w'" by blast
  then show ?case by (auto simp: t intro: prefix_prefix)
next
  case (more w0 sp r)
  from more.prems obtain rest where t: "inp = w0 @ sp @ r @ rest" by (auto simp: prefix_def)
  from more(2) obtain y sp' where sp: "sp = y # sp'" by (cases sp) auto
  with more(3) have y: "isSpace y" by simp
  from wordRun_starts_upper [OF more(4)] obtain c r' where r: "r = c # r'" and c: "isUpper c"
    by blast
  have lw: "leadWord inp = Some w0"
    using leadWord_of_word_space [OF more(1) y, of "sp' @ r @ rest"] by (simp add: t sp)
  let ?xs = "sp @ r @ rest"
  have d: "drop (length w0) inp = ?xs" by (simp add: t)
  have k: "spaces ?xs = length sp"
    using spaces_of_sep [OF more(3) c, of "r' @ rest"] by (simp add: r)
  from more.IH [of "r @ rest"] obtain w' where
    w': "leadWord (r @ rest) = Some w'"
    and p: "prefix r (w' @ nameRun spaces (drop (length w') (r @ rest)))"
    by auto
  have "spaces ?xs \<noteq> 0" using k more(2) by simp
  moreover have "leadWord (drop (spaces ?xs) ?xs) = Some w'" by (simp add: k w')
  ultimately have "nameRun spaces ?xs =
      take (spaces ?xs) ?xs @ w' @ nameRun spaces (drop (spaces ?xs + length w') ?xs)"
    by (rule nameRun_step)
  then have "nameRun spaces ?xs = sp @ w' @ nameRun spaces (drop (length w') (r @ rest))"
    by (simp add: k)
  with p have "prefix (w0 @ sp @ r) (w0 @ nameRun spaces ?xs)" by simp
  with lw d show ?case by simp
qed

lemma extractName_maximal:
  "(\<forall>n. extractName text = Some n \<longrightarrow>
      wordRun n \<and> prefix n text \<and> (\<forall>p. wordRun p \<and> prefix p text \<longrightarrow> prefix p n)) \<and>
   (extractName text = None \<longrightarrow> \<not> (\<exists>p. wordRun p \<and> prefix p text))"
proof (cases "leadWord text")
  case None
  then have "extractName text = None" by (simp add: extractName_longestRun longestRun_def)
  moreover have "\<not> (\<exists>p. wordRun p \<and> prefix p text)"
    using None by (auto dest: wordRun_prefix_greedy)
  ultimately show ?thesis by simp
next
  case (Some w)
  let ?n = "w @ nameRun spaces (drop (length w) text)"
  from Some have e: "extractName text = Some ?n"
    by (simp add: extractName_longestRun longestRun_def)
  have "wordRun ?n" using leadWord_capitalised [OF Some] by (rule wordRun_greedy)
  moreover have "prefix ?n text"
    using e by (simp add: extractName_longestRun longestRun_prefix)
  moreover have "\<forall>p. wordRun p \<and> prefix p text \<longrightarrow> prefix p ?n"
    using Some by (auto dest: wordRun_prefix_greedy)
  ultimately show ?thesis using e by simp
qed

text \<open>
  C8, as the code has it: \<open>extractName\<close> returns a name exactly when the text begins
  with a capital letter followed by a lower-case letter. The name is then the longest
  run, from the start of the text, of capitalised words separated by one or more
  white-space characters (the pattern has \<open>\s+\<close> between the words, not one space):
  it is such a run and a prefix of the text, and every such run that is a prefix of the
  text is a prefix of it. When no name is found no such run starts the text, and the
  record has the name \<open>Unknown\<close>.
\<close>

theorem extractName_is_longest_run:
  "extractName text = longestRun spaces text \<and>
   (extractName text \<noteq> None \<longleftrightarrow>
      (\<exists>c d rest. text = c # d # rest \<and> isUpper c \<and> isLower d)) \<and>
   (\<forall>n. extractName text = Some n \<longrightarrow>
      wordRun n \<and> prefix n text \<and> (\<forall>p. wordRun p \<and> prefix p text \<longrightarrow> prefix p n)) \<and>
   (extractName text = None \<longrightarrow> \<not> (\<exists>p. wordRun p \<and> prefix p text)) \<and>
   (trim text \<noteq> [] \<and> extractName (trim text) = None \<longrightarrow>
      (\<exists>r. parseAppointment clk text = Some r \<and> name r = ''Unknown''))"
proof -
  have 1: "extractName text = longestRun spaces text" by (rule extractName_longestRun)
  have 2: "extractName text \<noteq> None \<longleftrightarrow>
      (\<exists>c d rest. text = c # d # rest \<and> isUpper c \<and> isLower d)"
    unfolding 1 using leadWord_Some_iff [of "text"]
    by (auto simp: longestRun_def split: option.splits)
  note 3 = extractName_maximal [of "text"]
  have 4: "trim text \<noteq> [] \<and> extractName (trim text) = None \<longrightarrow>
      (\<exists>r. parseAppointment clk text = Some r \<and> name r = ''Unknown'')"
    by (simp add: parseAppointment_def Let_def truthy_def)
  from 1 2 3 4 show ?thesis by blast
qed

theorem extractName_is_longest_run_witness:
  "extractName ''John Doe  Smith 7205551212'' = Some ''John Doe  Smith'' \<and>
   longestRun spaces ''John Doe  Smith 7205551212'' = Some ''John Doe  Smith'' \<and>
   wordRun ''John Doe  Smith'' \<and>
   prefix ''John Doe  Smith'' ''John Doe  Smith 7205551212'' \<and>
   extractName ''call Bob tomorrow'' = None \<and>
   (\<exists>r. parseAppointment clock0 ''call Bob tomorrow'' = Some r \<and> name r = ''Unknown'')"
proof -
  let ?t = "''John Doe  Smith 7205551212''"
  let ?u = "''call Bob tomorrow''"
  have l: "longestRun spaces ?t = Some ''John Doe  Smith''" by code_simp
  have "\<not> (\<exists>c d rest. ?u = c # d # rest \<and> isUpper c \<and> isLower d)"
    by (simp add: isUpper_def)
  with extractName_is_longest_run [of ?u clock0] have n: "extractName ?u = None" by blast
  have t: "trim ?u = ?u" by code_simp
  from extractName_is_longest_run [of ?u clock0] n t
  have r: "\<exists>r. parseAppointment clock0 ?u = Some r \<and> name r = ''Unknown''" by simp
  from extractName_is_longest_run [of ?t clock0] l
  have e: "extractName ?t = Some ''John Doe  Smith''" by simp
  with extractName_is_longest_run [of ?t clock0]
  have w: "wordRun ''John Doe  Smith''" and p: "prefix ''John Doe  Smith'' ?t"
    by blast+
  from e l w p n r show ?thesis by simp
qed

text \<open>
  With two spaces between the words the name goes on after the first word, where a run
  of words separated by single spaces stops.
\<close>

theorem extractName_single_space_counterexample:
  "extractName ''John  Doe'' = Some ''John  Doe'' \<and>
   longestRun oneSpace ''John  Doe'' = Some ''John''"
  by code_simp

section \<open>The removal of the name and of the phone\<close>

text \<open>
  What the name step and the phone step hand to \<open>replace\<close> is the matched substring
  itself, and \<open>replace\<close> removes its first occurrence: the name is a prefix of the
  working text, the raw phone occurs in it.
\<close>

lemma match_whole_occurs:
  assumes "match text r = Some m"
  shows "\<exists>pre post. text = pre @ whole m @ post"
proof -
  from assms obtain i s' where i: "i \<in> set [0 ..< Suc (length text)]"
    and s': "s' \<in> set (ms r text \<lparr>endIndex = i, caps = []\<rparr>)"
    and w: "whole m = substr text i (endIndex s')"
    unfolding match_def by (blast dest: searchFrom_Some)
  from i have "endIndex \<lparr>endIndex = i, caps = []\<rparr> \<le> length text" by auto
  from ms_endIndex [OF s' this] have le: "i \<le> endIndex s'" "endIndex s' \<le> length text"
    by simp_all
  have "drop i text = take (endIndex s' - i) (drop i text) @ drop (endIndex s' - i) (drop i text)"
    by (rule append_take_drop_id [symmetric])
  then have "drop i text = whole m @ drop (endIndex s' - i) (drop i text)"
    by (simp only: w substr_def)
  then obtain post where "drop i text = whole m @ post" ..
  then have "text = take i text @ whole m @ post"
    by (metis append_take_drop_id)
  then show ?thesis by blast
qed

lemma replace_first_first:
  "s = pre @ w @ post \<Longrightarrow>
   \<exists>pre' post'. s = pre' @ w @ post' \<and> length pre' \<le> length pre \<and>
     (\<forall>j<length pre'. \<not> prefix w (drop j s)) \<and> replace_first s w = pre' @ post'"
proof (induction s arbitrary: pre)
  case Nil
  then show ?case by simp
next
  case (Cons c cs)
  show ?case
  proof (cases "prefix w (c # cs)")
    case True
    then obtain post' where eq: "c # cs = w @ post'" by (auto simp: prefix_def)
    from True have "replace_first (c # cs) w = drop (length w) (c # cs)" by simp
    also have "\<dots> = post'" by (simp only: eq) simp
    finally have "c # cs = [] @ w @ post' \<and> length ([]::string) \<le> length pre \<and>
        (\<forall>j<length ([]::string). \<not> prefix w (drop j (c # cs))) \<and>
        replace_first (c # cs) w = [] @ post'"
      using eq by simp
    then show ?thesis by blast
  next
    case False
    with Cons.prems obtain pre0 where pre: "pre = c # pre0" and cs: "cs = pre0 @ w @ post"
      by (cases pre) auto
    from Cons.IH [OF cs] obtain pre' post' where
      r: "cs = pre' @ w @ post'" "length pre' \<le> length pre0"
        "\<forall>j<length pre'. \<not> prefix w (drop j cs)" "replace_first cs w = pre' @ post'"
      by blast
    have "\<forall>j<length (c # pre'). \<not> prefix w (drop j (c # cs))"
    proof (intro allI impI)
      fix j assume "j < length (c # pre')"
      then show "\<not> prefix w (drop j (c # cs))"
        using False r(3) by (cases j) auto
    qed
    with r pre False have "c # cs = (c # pre') @ w @ post' \<and> length (c # pre') \<le> length pre \<and>
        (\<forall>j<length (c # pre'). \<not> prefix w (drop j (c # cs))) \<and>
        replace_first (c # cs) w = (c # pre') @ post'"
      by simp
    then show ?thesis by blast
  qed
qed

lemma phone_removed_exactly:
  assumes "extractPhone working = Some p"
  shows "\<exists>pre post. working = pre @ raw p @ post \<and>
           (\<forall>j<length pre. \<not> prefix (raw p) (drop j working)) \<and>
           replace_first working (raw p) = pre @ post"
proof -
  from assms obtain r m where "match working r = Some m" and "raw p = whole m"
    by (auto simp: extractPhone_def Let_def split: option.splits if_splits)
  with match_whole_occurs [of working r m] obtain pre post where "working = pre @ raw p @ post"
    by auto
  from replace_first_first [OF this] show ?thesis by blast
qed

lemma name_removed_exactly:
  assumes "extractName working = Some n"
  shows "prefix n working \<and> n \<noteq> [] \<and> replace_first working n = drop (length n) working"
proof -
  from assms have lr: "longestRun spaces working = Some n" by (simp add: extractName_longestRun)
  then have p: "prefix n working" by (rule longestRun_prefix)
  from lr obtain w where "leadWord working = Some w" and "n = w @ nameRun spaces (drop (length w) working)"
    by (auto simp: longestRun_def split: option.splits)
  with leadWord_prefix [of working w] have ne: "n \<noteq> []" by auto
  with p have "working \<noteq> []" by auto
  then obtain c cs where "working = c # cs" by (cases working) auto
  with p ne show ?thesis by simp
qed

end
